theory Spec2Isabelle
  imports Main
begin

section \<open>uavcan\_linux helpers: Node factories and the blocking service client\<close>

text \<open>
  A shallow embedding of \<^verbatim>\<open>libuavcan_drivers/linux/include/uavcan_linux/helpers.hpp\<close>.
  The header is a thin layer over the uavcan runtime. What the runtime answers when the
  header calls it (\<^verbatim>\<open>addIface\<close>, \<^verbatim>\<open>start\<close>, \<^verbatim>\<open>init\<close>, \<^verbatim>\<open>call\<close>,
  \<^verbatim>\<open>isPending\<close>, \<^verbatim>\<open>spin\<close>) is a parameter of the model; the few members of the
  runtime whose contents the statements need are modelled from the spec, and say so. Every
  \<^verbatim>\<open>throw\<close> is the \<open>Inl\<close> branch of a sum.
  Status codes are C++ \<^verbatim>\<open>int\<close>; the header only compares them with zero, prints them and
  hands them on, so they are modelled by \<open>int\<close>.
\<close>

subsection \<open>Exceptions and \<^verbatim>\<open>enforce\<close>\<close>

text \<open>
  The header throws objects of one class only, \<^verbatim>\<open>uavcan_linux::Exception\<close>, built from
  the text of the message.
\<close>

datatype exception = Exception string

fun what :: "exception \<Rightarrow> string" where
  "what (Exception msg) = msg"

text \<open>
  Two thrown objects are of the same class when a handler that catches the one by its class
  catches the other. One equation per pair of classes; the header has a single class.
\<close>

fun same_class :: "exception \<Rightarrow> exception \<Rightarrow> bool" where
  "same_class (Exception _) (Exception _) = True"

text \<open>\<^verbatim>\<open>os << error\<close> on an \<^verbatim>\<open>int\<close>: the decimal digits, with a minus sign in front
  of a negative number. \<open>digit_char\<close> is only applied to numbers below ten.\<close>

definition digit_char :: "nat \<Rightarrow> char" where
  "digit_char d = ''0123456789'' ! d"

function decimal :: "nat \<Rightarrow> string" where
  "decimal n = (if n < 10 then [digit_char n] else decimal (n div 10) @ [digit_char (n mod 10)])"
  by pat_completeness auto
termination
  by (relation "measure (\<lambda>n. n)") auto

declare decimal.simps [simp del]

definition show_int :: "int \<Rightarrow> string" where
  "show_int i = (if i < 0 then CHR ''-'' # decimal (nat (- i)) else decimal (nat i))"

text \<open>
  \<^verbatim>\<open>static void enforce(int error, const std::string& msg)\<close>: throws when the status is
  negative, with the message followed by the status in square brackets; returns otherwise.
\<close>

definition enforce :: "int \<Rightarrow> string \<Rightarrow> exception + unit" where
  "enforce error msg =
     (if error < 0 then Inl (Exception (msg @ '' ['' @ show_int error @ '']''))
      else Inr ())"

subsection \<open>Driver pack and Node\<close>

text \<open>
  \<^verbatim>\<open>ClockAdjustmentMode\<close> and \<^verbatim>\<open>SystemClock\<close> are declared outside the header, which
  only passes the mode to the clock's constructor: the mode is a type parameter \<open>'mode\<close>
  and the clock is the mode it was constructed with.
\<close>

text \<open>
  Modelled from the spec: \<^verbatim>\<open>SocketCanDriver\<close> is declared outside the header. The spec
  gives the transport its attached interfaces: the driver is the list of the names attached
  so far, in the order of attachment.
\<close>

record SocketCanDriver =
  ifaces :: "string list"

text \<open>
  Modelled from the spec: \<^verbatim>\<open>SocketCanDriver::addIface\<close> is declared outside the header.
  The spec has it attach one interface by name and return a status. The status of an attempt
  is a parameter \<open>probe\<close> of the name and of the interfaces already attached (so that a
  limit on their number is covered); a negative status attaches nothing.
\<close>

type_synonym iface_probe = "string \<Rightarrow> string list \<Rightarrow> int"

definition addIface :: "iface_probe \<Rightarrow> string \<Rightarrow> SocketCanDriver \<Rightarrow> int \<times> SocketCanDriver" where
  "addIface probe ifn can =
     (let res = probe ifn (ifaces can)
      in if res < 0 then (res, can) else (res, can\<lparr>ifaces := ifaces can @ [ifn]\<rparr>))"

text \<open>\<^verbatim>\<open>struct DriverPack\<close>: the clock, constructed with the adjustment mode, and the CAN
  driver, constructed on that clock with no interface.\<close>

record 'mode DriverPack =
  clock :: 'mode
  can :: SocketCanDriver

definition DriverPack_init :: "'mode \<Rightarrow> 'mode DriverPack" where
  "DriverPack_init clock_adjustment_mode =
     \<lparr>clock = clock_adjustment_mode, can = \<lparr>ifaces = []\<rparr>\<rparr>"

text \<open>
  \<^verbatim>\<open>class Node\<close>: the owned driver pack (a shared pointer, null after the forwarding
  constructor) and whether the default log sink has been registered with the logger.
\<close>

record 'mode Node =
  driver_pack :: "'mode DriverPack option"
  external_sink_set :: bool

definition Node_forwarding :: "'mode Node" where
  "Node_forwarding = \<lparr>driver_pack = None, external_sink_set = True\<rparr>"

definition Node_init :: "'mode DriverPack \<Rightarrow> 'mode Node" where
  "Node_init dp = \<lparr>driver_pack = Some dp, external_sink_set = True\<rparr>"

text \<open>The loop of \<^verbatim>\<open>makeNode\<close> over the interface names: the first negative status
  throws, naming the interface.\<close>

fun add_ifaces ::
  "iface_probe \<Rightarrow> string list \<Rightarrow> 'mode DriverPack \<Rightarrow> exception + 'mode DriverPack" where
  "add_ifaces probe [] dp = Inr dp"
| "add_ifaces probe (ifn # iface_names) dp =
     (case addIface probe ifn (can dp) of (res, can') \<Rightarrow>
        if res < 0 then Inl (Exception (''Failed to add iface '' @ ifn))
        else add_ifaces probe iface_names (dp\<lparr>can := can'\<rparr>))"

definition makeNode :: "iface_probe \<Rightarrow> string list \<Rightarrow> 'mode \<Rightarrow> exception + 'mode Node" where
  "makeNode probe iface_names clock_adjustment_mode =
     (case add_ifaces probe iface_names (DriverPack_init clock_adjustment_mode) of
        Inl e \<Rightarrow> Inl e
      | Inr dp \<Rightarrow> Inr (Node_init dp))"

text \<open>The overload without a mode asks the clock for the preferred one; the answer of
  \<^verbatim>\<open>SystemClock::detectPreferredClockAdjustmentMode\<close> is the parameter \<open>detected\<close>.\<close>

definition makeNode_detect :: "iface_probe \<Rightarrow> 'mode \<Rightarrow> string list \<Rightarrow> exception + 'mode Node" where
  "makeNode_detect probe detected iface_names = makeNode probe iface_names detected"

subsection \<open>Endpoint factories of Node\<close>

text \<open>
  The endpoint classes belong to the uavcan runtime. A handle is modelled by what the factory
  gives it: the full name of its data type, its callback, and for a publisher the transmit
  timeout (a \<^verbatim>\<open>MonotonicDuration\<close>, in microseconds). The status returned by
  \<^verbatim>\<open>p->start(cb)\<close> or \<^verbatim>\<open>p->init()\<close> is the first parameter of each factory, and
  \<^verbatim>\<open>getDataTypeName<DataType>()\<close> the second. When \<^verbatim>\<open>enforce\<close> throws, the shared
  pointer \<^verbatim>\<open>p\<close> goes out of scope and the factory yields the exception alone.
\<close>

type_synonym MonotonicDuration = int

record 'cb Subscriber =
  subscriber_type :: string
  subscriber_callback :: 'cb

record Publisher =
  publisher_type :: string
  tx_timeout :: MonotonicDuration

record 'cb ServiceServer =
  server_type :: string
  server_callback :: 'cb

record 'cb ServiceClient =
  client_type :: string
  client_callback :: 'cb

definition makeSubscriber :: "int \<Rightarrow> string \<Rightarrow> 'cb \<Rightarrow> exception + 'cb Subscriber" where
  "makeSubscriber start_res type_name cb =
     (case enforce start_res (''Subscriber start failure '' @ type_name) of
        Inl e \<Rightarrow> Inl e
      | Inr _ \<Rightarrow> Inr \<lparr>subscriber_type = type_name, subscriber_callback = cb\<rparr>)"

definition makePublisher :: "int \<Rightarrow> string \<Rightarrow> MonotonicDuration \<Rightarrow> exception + Publisher" where
  "makePublisher init_res type_name tx_timeout_arg =
     (case enforce init_res (''Publisher init failure '' @ type_name) of
        Inl e \<Rightarrow> Inl e
      | Inr _ \<Rightarrow> Inr \<lparr>publisher_type = type_name, tx_timeout = tx_timeout_arg\<rparr>)"

definition makeServiceServer :: "int \<Rightarrow> string \<Rightarrow> 'cb \<Rightarrow> exception + 'cb ServiceServer" where
  "makeServiceServer start_res type_name cb =
     (case enforce start_res (''ServiceServer start failure '' @ type_name) of
        Inl e \<Rightarrow> Inl e
      | Inr _ \<Rightarrow> Inr \<lparr>server_type = type_name, server_callback = cb\<rparr>)"

definition makeServiceClient :: "int \<Rightarrow> string \<Rightarrow> 'cb \<Rightarrow> exception + 'cb ServiceClient" where
  "makeServiceClient init_res type_name cb =
     (case enforce init_res (''ServiceClient init failure '' @ type_name) of
        Inl e \<Rightarrow> Inl e
      | Inr _ \<Rightarrow> Inr \<lparr>client_type = type_name, client_callback = cb\<rparr>)"

subsection \<open>BlockingServiceClient\<close>

text \<open>
  Modelled from the spec: \<^verbatim>\<open>uavcan::ServiceCallResult<DataType>\<close>, what the runtime hands
  to the callback of a service client, is declared outside the header. The spec has the
  result carry the response payload and whether the call fully succeeded (a response was
  received and there was no protocol-level failure).
\<close>

record 'resp ServiceCallResult =
  res_response :: 'resp
  res_successful :: bool

definition isSuccessful :: "'resp ServiceCallResult \<Rightarrow> bool" where
  "isSuccessful res = res_successful res"

type_synonym NodeID = nat

text \<open>
  The runtime under a \<^verbatim>\<open>BlockingServiceClient<DataType>\<close>: the base class
  \<^verbatim>\<open>uavcan::ServiceClient<DataType>\<close> (\<^verbatim>\<open>Super\<close>) and the node it is attached to. Their
  state is a value of an arbitrary type \<open>'w\<close>, and their operations are the fields of a record:
  \<^item> \<open>Response_init\<close>: the value-initialised \<^verbatim>\<open>DataType::Response()\<close>;
  \<^item> \<open>Super_call\<close>: \<^verbatim>\<open>Super::call(server_node_id, request)\<close>, which reads the request
    timeout configured on the client, returns the status of the issuance and changes the
    runtime;
  \<^item> \<open>Super_isPending\<close>: \<^verbatim>\<open>Super::isPending()\<close>, a \<^verbatim>\<open>const\<close> query;
  \<^item> \<open>Node_spin\<close>: \<^verbatim>\<open>Super::getNode().spin(duration)\<close>, which returns its status, the
    results it handed to the client's callback while it ran, in order, and the new runtime.
\<close>

record ('req, 'resp, 'w) uavcan =
  Response_init :: 'resp
  Super_call :: "NodeID \<Rightarrow> 'req \<Rightarrow> MonotonicDuration \<Rightarrow> 'w \<Rightarrow> int \<times> 'w"
  Super_isPending :: "'w \<Rightarrow> bool"
  Node_spin :: "MonotonicDuration \<Rightarrow> 'w \<Rightarrow> int \<times> 'resp ServiceCallResult list \<times> 'w"

text \<open>
  The members of the client: \<^verbatim>\<open>response_\<close> and \<^verbatim>\<open>call_was_successful_\<close> of the
  class itself, and of the base class the two members that the header writes through
  \<^verbatim>\<open>Super::setCallback\<close> and \<^verbatim>\<open>Super::setRequestTimeout\<close>: whether the callback is bound
  to \<^verbatim>\<open>BlockingServiceClient::callback\<close>, and the request timeout.
\<close>

record 'resp BlockingServiceClient =
  response :: 'resp
  call_was_successful :: bool
  callback_bound :: bool
  request_timeout :: MonotonicDuration

definition callback ::
  "'resp BlockingServiceClient \<Rightarrow> 'resp ServiceCallResult \<Rightarrow> 'resp BlockingServiceClient" where
  "callback c res = c\<lparr>response := res_response res, call_was_successful := isSuccessful res\<rparr>"

text \<open>\<^verbatim>\<open>setup()\<close>; the name alone is a keyword of Isabelle, hence the prime.\<close>

definition setup' ::
  "('req, 'resp, 'w) uavcan \<Rightarrow> 'resp BlockingServiceClient \<Rightarrow> 'resp BlockingServiceClient" where
  "setup' u c =
     c\<lparr>callback_bound := True, call_was_successful := False, response := Response_init u\<rparr>"

text \<open>
  The constructor: the base class is constructed on the node (its request timeout starts at
  the default of the runtime, the parameter \<open>default_timeout\<close>, and no callback is bound),
  \<^verbatim>\<open>response_\<close> is default-constructed, \<^verbatim>\<open>call_was_successful_\<close> is initialised to
  false, and the body calls \<^verbatim>\<open>setup()\<close>.
\<close>

definition BlockingServiceClient_init ::
  "('req, 'resp, 'w) uavcan \<Rightarrow> MonotonicDuration \<Rightarrow> 'resp BlockingServiceClient" where
  "BlockingServiceClient_init u default_timeout =
     setup' u \<lparr>response = Response_init u, call_was_successful = False,
              callback_bound = False, request_timeout = default_timeout\<rparr>"

definition wasSuccessful :: "'resp BlockingServiceClient \<Rightarrow> bool" where
  "wasSuccessful c = call_was_successful c"

definition getResponse :: "'resp BlockingServiceClient \<Rightarrow> 'resp" where
  "getResponse c = response c"

text \<open>Modelled from the spec: \<^verbatim>\<open>Super::setRequestTimeout(timeout)\<close> is declared outside
  the header. The spec has it set the request timeout on the wrapped client, where the later
  issuances find it.\<close>

definition setRequestTimeout ::
  "MonotonicDuration \<Rightarrow> 'resp BlockingServiceClient \<Rightarrow> 'resp BlockingServiceClient" where
  "setRequestTimeout timeout c = c\<lparr>request_timeout := timeout\<rparr>"

text \<open>Modelled from the spec: the invocation of the callback belongs to the runtime. The
  callback that \<^verbatim>\<open>setup()\<close> has bound is invoked once for each result, in order.\<close>

definition deliver ::
  "'resp BlockingServiceClient \<Rightarrow> 'resp ServiceCallResult list \<Rightarrow> 'resp BlockingServiceClient" where
  "deliver c results = (if callback_bound c then foldl callback c results else c)"

text \<open>\<^verbatim>\<open>uavcan::MonotonicDuration::fromMSec(2)\<close>, in microseconds.\<close>

definition SpinDuration :: MonotonicDuration where
  "SpinDuration = 2 * 1000"

text \<open>
  One pass through the body of the \<^verbatim>\<open>while\<close> loop up to the test of \<^verbatim>\<open>spin_res\<close>:
  the node spins, and the callback has run on what the spin delivered.
\<close>

definition spin_once ::
  "('req, 'resp, 'w) uavcan \<Rightarrow> 'resp BlockingServiceClient \<Rightarrow> 'w
     \<Rightarrow> int \<times> 'resp ServiceCallResult list \<times> 'resp BlockingServiceClient \<times> 'w" where
  "spin_once u c w =
     (case Node_spin u SpinDuration w of (spin_res, results, w') \<Rightarrow>
        (spin_res, results, deliver c results, w'))"

text \<open>
  The \<^verbatim>\<open>while (Super::isPending())\<close> loop. Nothing bounds the number of its iterations,
  so it is a partial function: \<open>None\<close> is the loop that never exits. Besides the returned
  status, the client and the runtime, the model returns a log that the C++ does not keep:
  for every spin performed, in order, its status and the results it delivered.
\<close>

type_synonym 'resp spin_log = "(int \<times> 'resp ServiceCallResult list) list"

partial_function (option) spin_while_pending ::
  "('req, 'resp, 'w) uavcan \<Rightarrow> int \<Rightarrow> 'resp spin_log \<Rightarrow> 'resp BlockingServiceClient \<Rightarrow> 'w
     \<Rightarrow> (int \<times> 'resp spin_log \<times> 'resp BlockingServiceClient \<times> 'w) option" where
  "spin_while_pending u call_res log c w =
     (if Super_isPending u w then
        (case spin_once u c w of (spin_res, results, c', w') \<Rightarrow>
           if spin_res < 0 then Some (spin_res, log @ [(spin_res, results)], c', w')
           else spin_while_pending u call_res (log @ [(spin_res, results)]) c' w')
      else Some (call_res, log, c, w))"

definition blockingCall ::
  "('req, 'resp, 'w) uavcan \<Rightarrow> NodeID \<Rightarrow> 'req \<Rightarrow> 'resp BlockingServiceClient \<Rightarrow> 'w
     \<Rightarrow> (int \<times> 'resp spin_log \<times> 'resp BlockingServiceClient \<times> 'w) option" where
  "blockingCall u server_node_id request c w =
     (let c1 = setup' u c in
      case Super_call u server_node_id request (request_timeout c1) w of (call_res, w1) \<Rightarrow>
        if call_res \<ge> 0 then spin_while_pending u call_res [] c1 w1
        else Some (call_res, [], c1, w1))"

text \<open>The overload with a timeout.\<close>

definition blockingCall_timeout ::
  "('req, 'resp, 'w) uavcan \<Rightarrow> NodeID \<Rightarrow> 'req \<Rightarrow> MonotonicDuration \<Rightarrow> 'resp BlockingServiceClient \<Rightarrow> 'w
     \<Rightarrow> (int \<times> 'resp spin_log \<times> 'resp BlockingServiceClient \<times> 'w) option" where
  "blockingCall_timeout u server_node_id request timeout c w =
     blockingCall u server_node_id request (setRequestTimeout timeout c) w"

subsection \<open>Vocabulary of the statements\<close>

text \<open>
  Every name of the list attaches successfully: taken in list order, each name gets a
  non-negative status on top of the interfaces attached before it.
\<close>

fun all_attach :: "iface_probe \<Rightarrow> string list \<Rightarrow> string list \<Rightarrow> bool" where
  "all_attach probe attached [] = True"
| "all_attach probe attached (ifn # iface_names) =
     (0 \<le> probe ifn attached \<and> all_attach probe (attached @ [ifn]) iface_names)"

text \<open>
  The state of the loop after \<open>n\<close> passes through its body, whatever the statuses were;
  the log of these \<open>n\<close> spins; and whether the loop really makes these \<open>n\<close> passes and comes
  back to its test: before each of them the call is pending, and each spin returns a
  non-negative status.
\<close>

fun after_spins ::
  "('req, 'resp, 'w) uavcan \<Rightarrow> nat \<Rightarrow> 'resp BlockingServiceClient \<Rightarrow> 'w
     \<Rightarrow> 'resp BlockingServiceClient \<times> 'w" where
  "after_spins u 0 c w = (c, w)"
| "after_spins u (Suc n) c w =
     (case spin_once u c w of (spin_res, results, c', w') \<Rightarrow> after_spins u n c' w')"

fun log_of_spins ::
  "('req, 'resp, 'w) uavcan \<Rightarrow> nat \<Rightarrow> 'resp BlockingServiceClient \<Rightarrow> 'w \<Rightarrow> 'resp spin_log" where
  "log_of_spins u 0 c w = []"
| "log_of_spins u (Suc n) c w =
     (case spin_once u c w of (spin_res, results, c', w') \<Rightarrow>
        (spin_res, results) # log_of_spins u n c' w')"

fun spins_continue ::
  "('req, 'resp, 'w) uavcan \<Rightarrow> nat \<Rightarrow> 'resp BlockingServiceClient \<Rightarrow> 'w \<Rightarrow> bool" where
  "spins_continue u 0 c w = True"
| "spins_continue u (Suc n) c w =
     (Super_isPending u w \<and>
      (case spin_once u c w of (spin_res, results, c', w') \<Rightarrow>
         0 \<le> spin_res \<and> spins_continue u n c' w'))"

text \<open>What the loop guarantees about a result \<open>y\<close> it returns, started with the log \<open>log\<close>
  and the client \<open>c\<close>: the invariant of the proofs below.\<close>

definition loop_post ::
  "('req, 'resp, 'w) uavcan \<Rightarrow> int \<Rightarrow> 'resp spin_log \<Rightarrow> 'resp BlockingServiceClient
     \<Rightarrow> int \<times> 'resp spin_log \<times> 'resp BlockingServiceClient \<times> 'w \<Rightarrow> bool" where
  "loop_post u call_res log c y =
     (case y of (r, log', c', w') \<Rightarrow>
        \<exists>ext. log' = log @ ext \<and> c' = deliver c (concat (map snd ext)) \<and>
          ((r = call_res \<and> \<not> Super_isPending u w' \<and> (\<forall>e \<in> set ext. 0 \<le> fst e)) \<or>
           (r < 0 \<and> ext \<noteq> [] \<and> fst (last ext) = r \<and> (\<forall>e \<in> set (butlast ext). 0 \<le> fst e))))"

text \<open>
  What \<^verbatim>\<open>wasSuccessful()\<close> and \<^verbatim>\<open>getResponse()\<close> show after the given results have been
  handed to the callback of a freshly reset client: the defaults if there were none, and what
  the last result says otherwise.
\<close>

definition last_outcome ::
  "('req, 'resp, 'w) uavcan \<Rightarrow> 'resp ServiceCallResult list \<Rightarrow> bool \<times> 'resp" where
  "last_outcome u results =
     (case rev results of
        [] \<Rightarrow> (False, Response_init u)
      | res # _ \<Rightarrow> (isSuccessful res, res_response res))"

text \<open>
  Modelled from the spec: the moment at which \<^verbatim>\<open>uavcan::ServiceClient\<close> invokes the
  callback is decided outside the header. The spec has the callback run ``on resolution'' of
  the call, the step that takes the client from \<open>Pending\<close> to \<open>Resolved\<close>: a spin that hands
  a result to the callback leaves the call no longer pending.
\<close>

definition resolves_on_delivery :: "('req, 'resp, 'w) uavcan \<Rightarrow> bool" where
  "resolves_on_delivery u =
     (\<forall>duration w. case Node_spin u duration w of (spin_res, results, w') \<Rightarrow>
        results \<noteq> [] \<longrightarrow> \<not> Super_isPending u w')"

text \<open>A sequence of calls through the overload without a timeout, each on the client and
  the runtime that the one before has left; \<open>None\<close> when one of them never returns.\<close>

fun blockingCalls ::
  "('req, 'resp, 'w) uavcan \<Rightarrow> (NodeID \<times> 'req) list \<Rightarrow> 'resp BlockingServiceClient \<Rightarrow> 'w
     \<Rightarrow> ('resp BlockingServiceClient \<times> 'w) option" where
  "blockingCalls u [] c w = Some (c, w)"
| "blockingCalls u ((server_node_id, request) # calls) c w =
     (case blockingCall u server_node_id request c w of
        None \<Rightarrow> None
      | Some (r, log, c', w') \<Rightarrow> blockingCalls u calls c' w')"

subsection \<open>A simulated runtime for the examples\<close>

text \<open>
  A runtime whose future is written in its state: the statuses that the coming issuances will
  return (\<open>0\<close> once the list is used up), and for each coming spin its status and the results
  it hands to the callback if a call is pending. A non-negative issuance leaves the call
  pending; a spin that delivers a result resolves it. The runtime also records the request
  timeout that each issuance was given.
\<close>

record sim_world =
  sim_pending :: bool
  sim_calls :: "int list"
  sim_spins :: "(int \<times> nat ServiceCallResult list) list"
  sim_timeouts :: "MonotonicDuration list"

definition sim_runtime :: "(unit, nat, sim_world) uavcan" where
  "sim_runtime =
     \<lparr>Response_init = 0,
      Super_call = (\<lambda>server_node_id request timeout w.
        case sim_calls w of
          [] \<Rightarrow> (0, w\<lparr>sim_pending := True, sim_timeouts := sim_timeouts w @ [timeout]\<rparr>)
        | s # rest \<Rightarrow>
            (s, w\<lparr>sim_pending := (0 \<le> s), sim_calls := rest,
                  sim_timeouts := sim_timeouts w @ [timeout]\<rparr>)),
      Super_isPending = sim_pending,
      Node_spin = (\<lambda>duration w.
        case sim_spins w of
          [] \<Rightarrow> (0, [], w)
        | (s, rs) # rest \<Rightarrow>
            (s, if sim_pending w then rs else [],
             w\<lparr>sim_pending := (sim_pending w \<and> rs = []), sim_spins := rest\<rparr>))\<rparr>"

definition sim_client :: "nat BlockingServiceClient" where
  "sim_client = BlockingServiceClient_init sim_runtime 1000000"

definition sim_start :: "int list \<Rightarrow> (int \<times> nat ServiceCallResult list) list \<Rightarrow> sim_world" where
  "sim_start calls spins =
     \<lparr>sim_pending = False, sim_calls = calls, sim_spins = spins, sim_timeouts = []\<rparr>"

text \<open>An interface probe for the examples: \<^verbatim>\<open>can1\<close> does not exist, any other name
  attaches and gets the index of the new interface.\<close>

definition sim_probe :: iface_probe where
  "sim_probe ifn attached = (if ifn = ''can1'' then - 19 else int (length attached))"

section \<open>Lemmas\<close>

subsection \<open>Printing a status, \<^verbatim>\<open>enforce\<close> and the factories\<close>

text \<open>The printed form of a status determines the status.\<close>

lemma digit_char_inj: "a < 10 \<Longrightarrow> b < 10 \<Longrightarrow> digit_char a = digit_char b \<Longrightarrow> a = b"
proof -
  assume a: "a < 10" and b: "b < 10" and e: "digit_char a = digit_char b"
  have d: "distinct ''0123456789''" by simp
  have "length ''0123456789'' = 10" by simp
  with a b e d show "a = b"
    unfolding digit_char_def by (simp add: nth_eq_iff_index_eq)
qed

lemma digit_char_in: "d < 10 \<Longrightarrow> digit_char d \<in> set ''0123456789''"
  unfolding digit_char_def by (rule nth_mem) simp

lemma decimal_not_Nil: "decimal n \<noteq> []"
  by (subst decimal.simps) simp

lemma decimal_digits: "set (decimal n) \<subseteq> set ''0123456789''"
proof (induction n rule: decimal.induct)
  case (1 n)
  show ?case
  proof (cases "n < 10")
    case True
    then show ?thesis
      using digit_char_in [of n] by (subst decimal.simps) simp
  next
    case False
    have "n mod 10 < 10" by simp
    then have "digit_char (n mod 10) \<in> set ''0123456789''" by (rule digit_char_in)
    with False 1 show ?thesis
      by (subst decimal.simps) simp
  qed
qed

lemma decimal_inj: "decimal n = decimal m \<Longrightarrow> n = m"
proof (induction n arbitrary: m rule: decimal.induct)
  case (1 n)
  show ?case
  proof (cases "n < 10")
    case small: True
    then have n: "decimal n = [digit_char n]" by (subst decimal.simps) simp
    show ?thesis
    proof (cases "m < 10")
      case True
      then have "decimal m = [digit_char m]" by (subst decimal.simps) simp
      with n 1(2) have "digit_char n = digit_char m" by simp
      with small True show ?thesis by (rule digit_char_inj)
    next
      case False
      then have "decimal m = decimal (m div 10) @ [digit_char (m mod 10)]"
        by (subst decimal.simps) simp
      with n 1(2) have "decimal (m div 10) = []" by simp
      then show ?thesis by (simp add: decimal_not_Nil)
    qed
  next
    case big: False
    then have n: "decimal n = decimal (n div 10) @ [digit_char (n mod 10)]"
      by (subst decimal.simps) simp
    show ?thesis
    proof (cases "m < 10")
      case True
      then have "decimal m = [digit_char m]" by (subst decimal.simps) simp
      with n 1(2) have "decimal (n div 10) = []" by simp
      then show ?thesis by (simp add: decimal_not_Nil)
    next
      case False
      then have "decimal m = decimal (m div 10) @ [digit_char (m mod 10)]"
        by (subst decimal.simps) simp
      with n 1(2) have front: "decimal (n div 10) = decimal (m div 10)"
        and unit_digit: "digit_char (n mod 10) = digit_char (m mod 10)" by simp_all
      from big front have "n div 10 = m div 10" by (rule 1(1))
      moreover have "n mod 10 < 10" "m mod 10 < 10" by simp_all
      then have "n mod 10 = m mod 10" using unit_digit by (rule digit_char_inj)
      ultimately have "n div 10 * 10 + n mod 10 = m div 10 * 10 + m mod 10" by simp
      then show ?thesis by (simp only: div_mult_mod_eq)
    qed
  qed
qed

lemma show_int_inj: "show_int a = show_int b \<Longrightarrow> a = b"
proof -
  assume e: "show_int a = show_int b"
  have minus: "CHR ''-'' \<notin> set ''0123456789''" by simp
  have no_minus: "\<And>n. hd (decimal n) \<noteq> CHR ''-''"
  proof -
    fix n
    have "hd (decimal n) \<in> set (decimal n)" by (simp add: decimal_not_Nil)
    with decimal_digits [of n] have "hd (decimal n) \<in> set ''0123456789''" by blast
    with minus show "hd (decimal n) \<noteq> CHR ''-''" by auto
  qed
  show "a = b"
  proof (cases "a < 0")
    case an: True
    show ?thesis
    proof (cases "b < 0")
      case True
      with an e have "decimal (nat (- a)) = decimal (nat (- b))" by (simp add: show_int_def)
      then have "nat (- a) = nat (- b)" by (rule decimal_inj)
      with an True show ?thesis by simp
    next
      case False
      with an e have "CHR ''-'' # decimal (nat (- a)) = decimal (nat b)" by (simp add: show_int_def)
      then have "hd (decimal (nat b)) = hd (CHR ''-'' # decimal (nat (- a)))" by (rule arg_cong [OF sym])
      then have "hd (decimal (nat b)) = CHR ''-''" by (simp only: list.sel)
      with no_minus show ?thesis by blast
    qed
  next
    case ap: False
    show ?thesis
    proof (cases "b < 0")
      case True
      with ap e have "decimal (nat a) = CHR ''-'' # decimal (nat (- b))" by (simp add: show_int_def)
      then have "hd (decimal (nat a)) = hd (CHR ''-'' # decimal (nat (- b)))" by (rule arg_cong)
      then have "hd (decimal (nat a)) = CHR ''-''" by (simp only: list.sel)
      with no_minus show ?thesis by blast
    next
      case False
      with ap e have "decimal (nat a) = decimal (nat b)" by (simp add: show_int_def)
      then have "nat a = nat b" by (rule decimal_inj)
      with ap False show ?thesis by simp
    qed
  qed
qed

lemma show_minus_3: "show_int (- 3) = ''-3''"
  by (simp add: show_int_def decimal.simps [of 3] digit_char_def)

lemma enforce_negative:
  "res < 0 \<Longrightarrow> enforce res msg = Inl (Exception (msg @ '' ['' @ show_int res @ '']''))"
  by (simp add: enforce_def)

lemma enforce_nonnegative: "0 \<le> res \<Longrightarrow> enforce res msg = Inr ()"
  by (simp add: enforce_def)

lemma factory_error:
  assumes "makeSubscriber res type_name cb1 = Inl e \<or> makePublisher res type_name tx = Inl e \<or>
    makeServiceServer res type_name cb2 = Inl e \<or> makeServiceClient res type_name cb3 = Inl e"
  shows "\<exists>c rest. e = Exception (c # rest) \<and> (c = CHR ''S'' \<or> c = CHR ''P'')"
proof (cases "res < 0")
  case True
  with assms show ?thesis
    by (auto simp: makeSubscriber_def makePublisher_def makeServiceServer_def
        makeServiceClient_def enforce_negative)
next
  case False
  then have "0 \<le> res" by simp
  with assms show ?thesis
    by (simp add: makeSubscriber_def makePublisher_def makeServiceServer_def
        makeServiceClient_def enforce_nonnegative)
qed

subsection \<open>\<^verbatim>\<open>makeNode\<close>\<close>

lemma ifaces_update: "(d :: SocketCanDriver)\<lparr>ifaces := names\<rparr> = \<lparr>ifaces = names\<rparr>"
  by (cases d) simp

lemma add_ifaces_ok:
  "all_attach probe (ifaces (can dp)) iface_names \<Longrightarrow>
   add_ifaces probe iface_names dp = Inr (dp\<lparr>can := \<lparr>ifaces = ifaces (can dp) @ iface_names\<rparr>\<rparr>)"
proof (induction iface_names arbitrary: dp)
  case Nil
  then show ?case by simp
next
  case (Cons ifn iface_names)
  let ?dp = "dp\<lparr>can := \<lparr>ifaces = ifaces (can dp) @ [ifn]\<rparr>\<rparr>"
  from Cons.prems have ok: "0 \<le> probe ifn (ifaces (can dp))"
    and rest: "all_attach probe (ifaces (can ?dp)) iface_names" by simp_all
  from ok have "add_ifaces probe (ifn # iface_names) dp = add_ifaces probe iface_names ?dp"
    by (simp add: addIface_def ifaces_update)
  also from rest have "\<dots> = Inr (?dp\<lparr>can := \<lparr>ifaces = ifaces (can ?dp) @ iface_names\<rparr>\<rparr>)"
    by (rule Cons.IH)
  finally show ?case by simp
qed

lemma add_ifaces_fail:
  "all_attach probe (ifaces (can dp)) pre \<Longrightarrow> probe ifn (ifaces (can dp) @ pre) < 0 \<Longrightarrow>
   add_ifaces probe (pre @ ifn # rest) dp = Inl (Exception (''Failed to add iface '' @ ifn))"
proof (induction pre arbitrary: dp)
  case Nil
  then show ?case by (simp add: addIface_def ifaces_update)
next
  case (Cons p pre)
  let ?dp = "dp\<lparr>can := \<lparr>ifaces = ifaces (can dp) @ [p]\<rparr>\<rparr>"
  from Cons.prems have ok: "0 \<le> probe p (ifaces (can dp))"
    and rest: "all_attach probe (ifaces (can ?dp)) pre"
    and bad: "probe ifn (ifaces (can ?dp) @ pre) < 0" by simp_all
  from ok have "add_ifaces probe ((p # pre) @ ifn # rest) dp =
      add_ifaces probe (pre @ ifn # rest) ?dp"
    by (simp add: addIface_def ifaces_update)
  also from rest bad have "\<dots> = Inl (Exception (''Failed to add iface '' @ ifn))"
    by (rule Cons.IH)
  finally show ?case .
qed

lemma first_failure:
  "\<not> all_attach probe attached iface_names \<Longrightarrow>
   \<exists>pre ifn rest. iface_names = pre @ ifn # rest \<and> all_attach probe attached pre \<and>
     probe ifn (attached @ pre) < 0"
proof (induction iface_names arbitrary: attached)
  case Nil
  then show ?case by simp
next
  case (Cons n iface_names)
  show ?case
  proof (cases "0 \<le> probe n attached")
    case False
    then have "n # iface_names = [] @ n # iface_names \<and> all_attach probe attached [] \<and>
        probe n (attached @ []) < 0" by simp
    then show ?thesis by blast
  next
    case True
    with Cons.prems have "\<not> all_attach probe (attached @ [n]) iface_names" by simp
    then obtain pre ifn rest where "iface_names = pre @ ifn # rest"
      and "all_attach probe (attached @ [n]) pre" and "probe ifn ((attached @ [n]) @ pre) < 0"
      using Cons.IH by blast
    with True have "n # iface_names = (n # pre) @ ifn # rest \<and>
        all_attach probe attached (n # pre) \<and> probe ifn (attached @ n # pre) < 0" by simp
    then show ?thesis by blast
  qed
qed

lemma makeNode_ok:
  assumes "all_attach probe [] iface_names"
  shows "makeNode probe iface_names mode =
    Inr \<lparr>driver_pack = Some \<lparr>clock = mode, can = \<lparr>ifaces = iface_names\<rparr>\<rparr>,
         external_sink_set = True\<rparr>"
proof -
  from assms have "all_attach probe (ifaces (can (DriverPack_init mode))) iface_names"
    by (simp add: DriverPack_init_def)
  then have "add_ifaces probe iface_names (DriverPack_init mode) =
      Inr ((DriverPack_init mode)\<lparr>can := \<lparr>ifaces = ifaces (can (DriverPack_init mode)) @ iface_names\<rparr>\<rparr>)"
    by (rule add_ifaces_ok)
  then show ?thesis
    by (simp add: makeNode_def DriverPack_init_def Node_init_def)
qed

lemma makeNode_fail:
  assumes "all_attach probe [] pre" and "probe ifn pre < 0"
  shows "makeNode probe (pre @ ifn # rest) mode = Inl (Exception (''Failed to add iface '' @ ifn))"
proof -
  from assms have "all_attach probe (ifaces (can (DriverPack_init mode))) pre"
    and "probe ifn (ifaces (can (DriverPack_init mode)) @ pre) < 0"
    by (simp_all add: DriverPack_init_def)
  then have "add_ifaces probe (pre @ ifn # rest) (DriverPack_init mode) =
      Inl (Exception (''Failed to add iface '' @ ifn))"
    by (rule add_ifaces_fail)
  then show ?thesis by (simp add: makeNode_def)
qed

lemma makeNode_error:
  assumes "makeNode probe iface_names mode = Inl e"
  shows "\<exists>ifn. e = Exception (''Failed to add iface '' @ ifn)"
proof (cases "all_attach probe [] iface_names")
  case True
  then show ?thesis using makeNode_ok [of probe iface_names mode] assms by simp
next
  case False
  then obtain pre ifn rest where "iface_names = pre @ ifn # rest"
    and "all_attach probe [] pre" and "probe ifn ([] @ pre) < 0"
    using first_failure [of probe "[]" iface_names] by blast
  then have "makeNode probe iface_names mode = Inl (Exception (''Failed to add iface '' @ ifn))"
    using makeNode_fail [of probe pre ifn rest mode] by simp
  with assms have "e = Exception (''Failed to add iface '' @ ifn)" by simp
  then show ?thesis by (rule exI)
qed

subsection \<open>The callback\<close>

lemma deliver_Nil: "deliver c [] = c"
  by (simp add: deliver_def)

lemma callback_bound_callback: "callback_bound (callback c res) = callback_bound c"
  by (simp add: callback_def)

lemma callback_bound_foldl: "callback_bound (foldl callback c rs) = callback_bound c"
  by (induction rs arbitrary: c) (simp_all add: callback_bound_callback)

lemma deliver_append: "deliver (deliver c rs1) rs2 = deliver c (rs1 @ rs2)"
  by (simp add: deliver_def callback_bound_foldl)

lemma request_timeout_callback: "request_timeout (callback c res) = request_timeout c"
  by (simp add: callback_def)

lemma request_timeout_deliver: "request_timeout (deliver c rs) = request_timeout c"
proof -
  have "request_timeout (foldl callback c rs) = request_timeout c"
    by (induction rs arbitrary: c) (simp_all add: request_timeout_callback)
  then show ?thesis by (simp add: deliver_def)
qed

lemma outcome_foldl_callback:
  "rs \<noteq> [] \<Longrightarrow>
   call_was_successful (foldl callback c rs) = isSuccessful (last rs) \<and>
   response (foldl callback c rs) = res_response (last rs)"
  by (induction rs rule: rev_induct) (simp_all add: callback_def)

lemma outcome_deliver_setup:
  "call_was_successful (deliver (setup' u c) rs) = fst (last_outcome u rs) \<and>
   response (deliver (setup' u c) rs) = snd (last_outcome u rs)"
proof (cases "rs = []")
  case True
  then show ?thesis
    by (simp add: deliver_def setup'_def last_outcome_def)
next
  case False
  then obtain res rs' where r: "rev rs = res # rs'"
    by (cases "rev rs") auto
  then have "last rs = res"
    by (metis last_rev list.sel(1) rev_rev_ident rev.simps(1) False hd_rev)
  moreover have "callback_bound (setup' u c)" by (simp add: setup'_def)
  ultimately show ?thesis
    using False r outcome_foldl_callback [of rs "setup' u c"]
    by (simp add: deliver_def last_outcome_def)
qed

lemma setup_deliver: "setup' u (deliver (setup' u c) rs) = setup' u c"
proof -
  have "\<And>d. setup' u (foldl callback d rs) = setup' u d"
    by (induction rs rule: rev_induct) (simp_all add: callback_def setup'_def)
  then show ?thesis
    by (simp add: deliver_def) (simp add: setup'_def)
qed

lemma fresh_client:
  "call_was_successful (BlockingServiceClient_init u default_timeout) = False \<and>
   response (BlockingServiceClient_init u default_timeout) = Response_init u"
  by (simp add: BlockingServiceClient_init_def setup'_def)

lemma setup_outcome:
  "call_was_successful (setup' u c) = False \<and> response (setup' u c) = Response_init u"
  by (simp add: setup'_def)

lemma request_timeout_set: "request_timeout (setRequestTimeout timeout c) = timeout"
  by (simp add: setRequestTimeout_def)

lemma setRequestTimeout_same: "request_timeout c = timeout \<Longrightarrow> setRequestTimeout timeout c = c"
  by (simp add: setRequestTimeout_def)

subsection \<open>The loop\<close>

lemma loop_exit:
  "\<not> Super_isPending u w \<Longrightarrow> spin_while_pending u call_res log c w = Some (call_res, log, c, w)"
  by (subst spin_while_pending.simps) simp

lemma loop_abort:
  "Super_isPending u w \<Longrightarrow> spin_once u c w = (spin_res, results, c', w') \<Longrightarrow> spin_res < 0 \<Longrightarrow>
   spin_while_pending u call_res log c w = Some (spin_res, log @ [(spin_res, results)], c', w')"
  by (subst spin_while_pending.simps) simp

lemma loop_continue:
  "Super_isPending u w \<Longrightarrow> spin_once u c w = (spin_res, results, c', w') \<Longrightarrow> 0 \<le> spin_res \<Longrightarrow>
   spin_while_pending u call_res log c w =
   spin_while_pending u call_res (log @ [(spin_res, results)]) c' w'"
  by (subst spin_while_pending.simps) simp

lemma length_log_of_spins: "length (log_of_spins u n c w) = n"
  by (induction n arbitrary: c w) (auto split: prod.splits)

text \<open>While the loop continues, its first \<open>n\<close> passes can be peeled off.\<close>

lemma loop_unroll:
  "spins_continue u n c w \<Longrightarrow>
   spin_while_pending u call_res log c w =
   spin_while_pending u call_res (log @ log_of_spins u n c w)
     (fst (after_spins u n c w)) (snd (after_spins u n c w))"
proof (induction n arbitrary: log c w)
  case 0
  then show ?case by simp
next
  case (Suc n)
  obtain s rs c' w' where step: "spin_once u c w = (s, rs, c', w')"
    by (cases "spin_once u c w") auto
  from Suc.prems step have p: "Super_isPending u w" and s: "0 \<le> s"
    and rest: "spins_continue u n c' w'" by auto
  have "spin_while_pending u call_res log c w =
        spin_while_pending u call_res (log @ [(s, rs)]) c' w'"
    using p step s by (rule loop_continue)
  also have "\<dots> = spin_while_pending u call_res ((log @ [(s, rs)]) @ log_of_spins u n c' w')
     (fst (after_spins u n c' w')) (snd (after_spins u n c' w'))"
    using rest by (rule Suc.IH)
  finally show ?case using step by simp
qed

text \<open>Whenever the loop returns, its result satisfies \<open>loop_post\<close>: by the induction
  principle of the partial function.\<close>

lemma loop_post_intro:
  assumes "spin_while_pending u call_res log c w = Some y"
  shows "loop_post u call_res log c y"
proof (rule spin_while_pending.raw_induct
    [where P = "\<lambda>u call_res log c w y. loop_post u call_res log c y", OF _ assms], goal_cases)
  case (1 swp u call_res log c w y)
  show ?case
  proof (cases "Super_isPending u w")
    case False
    with 1(2) have "y = (call_res, log, c, w)" by simp
    with False show ?thesis
      by (simp add: loop_post_def deliver_Nil)
  next
    case True
    obtain s rs c1 w1 where step: "spin_once u c w = (s, rs, c1, w1)"
      by (cases "spin_once u c w") auto
    then have c1: "c1 = deliver c rs"
      by (auto simp: spin_once_def split: prod.splits)
    show ?thesis
    proof (cases "s < 0")
      case neg: True
      with True step 1(2) have "y = (s, log @ [(s, rs)], c1, w1)" by simp
      with neg c1 show ?thesis
        by (simp add: loop_post_def)
    next
      case nonneg: False
      with True step 1(2) have "swp u call_res (log @ [(s, rs)]) c1 w1 = Some y" by simp
      then have "loop_post u call_res (log @ [(s, rs)]) c1 y" by (rule 1(1))
      then obtain r log' c' w' ext where y: "y = (r, log', c', w')"
        and l: "log' = (log @ [(s, rs)]) @ ext"
        and c': "c' = deliver c1 (concat (map snd ext))"
        and alt: "(r = call_res \<and> \<not> Super_isPending u w' \<and> (\<forall>e \<in> set ext. 0 \<le> fst e)) \<or>
           (r < 0 \<and> ext \<noteq> [] \<and> fst (last ext) = r \<and> (\<forall>e \<in> set (butlast ext). 0 \<le> fst e))"
        by (auto simp: loop_post_def)
      let ?ext = "(s, rs) # ext"
      have "log' = log @ ?ext" using l by simp
      moreover have "c' = deliver c (concat (map snd ?ext))"
        using c' c1 by (simp add: deliver_append)
      moreover have "(r = call_res \<and> \<not> Super_isPending u w' \<and> (\<forall>e \<in> set ?ext. 0 \<le> fst e)) \<or>
           (r < 0 \<and> ?ext \<noteq> [] \<and> fst (last ?ext) = r \<and> (\<forall>e \<in> set (butlast ?ext). 0 \<le> fst e))"
        using alt nonneg by auto
      ultimately show ?thesis unfolding y loop_post_def by blast
    qed
  qed
qed

subsection \<open>\<open>blockingCall\<close>\<close>

lemma request_timeout_setup: "request_timeout (setup' u c) = request_timeout c"
  by (simp add: setup'_def)

text \<open>\<open>blockingCall\<close> after a successful issuance is the loop, started on the reset client.\<close>

lemma blockingCall_issued:
  assumes "Super_call u server_node_id request (request_timeout c) w = (call_res, w1)"
    and "0 \<le> call_res"
  shows "blockingCall u server_node_id request c w =
         spin_while_pending u call_res [] (setup' u c) w1"
  using assms by (simp add: blockingCall_def request_timeout_setup)

lemma blockingCall_exits:
  assumes call: "Super_call u server_node_id request (request_timeout c) w = (call_res, w1)"
    and ok: "0 \<le> call_res"
    and run: "spins_continue u n (setup' u c) w1"
    and state: "after_spins u n (setup' u c) w1 = (cn, wn)"
    and resolved: "\<not> Super_isPending u wn"
  shows "blockingCall u server_node_id request c w =
         Some (call_res, log_of_spins u n (setup' u c) w1, cn, wn)"
proof -
  have "blockingCall u server_node_id request c w =
        spin_while_pending u call_res [] (setup' u c) w1"
    using call ok by (rule blockingCall_issued)
  also have "\<dots> = spin_while_pending u call_res ([] @ log_of_spins u n (setup' u c) w1)
      (fst (after_spins u n (setup' u c) w1)) (snd (after_spins u n (setup' u c) w1))"
    using run by (rule loop_unroll)
  also have "\<dots> = spin_while_pending u call_res (log_of_spins u n (setup' u c) w1) cn wn"
    using state by simp
  also have "\<dots> = Some (call_res, log_of_spins u n (setup' u c) w1, cn, wn)"
    using resolved by (rule loop_exit)
  finally show ?thesis .
qed

lemma blockingCall_aborts:
  assumes call: "Super_call u server_node_id request (request_timeout c) w = (call_res, w1)"
    and ok: "0 \<le> call_res"
    and run: "spins_continue u n (setup' u c) w1"
    and state: "after_spins u n (setup' u c) w1 = (cn, wn)"
    and pending: "Super_isPending u wn"
    and spin: "spin_once u cn wn = (spin_res, results, c', w')"
    and neg: "spin_res < 0"
  shows "blockingCall u server_node_id request c w =
         Some (spin_res, log_of_spins u n (setup' u c) w1 @ [(spin_res, results)], c', w')"
proof -
  have "blockingCall u server_node_id request c w =
        spin_while_pending u call_res [] (setup' u c) w1"
    using call ok by (rule blockingCall_issued)
  also have "\<dots> = spin_while_pending u call_res ([] @ log_of_spins u n (setup' u c) w1)
      (fst (after_spins u n (setup' u c) w1)) (snd (after_spins u n (setup' u c) w1))"
    using run by (rule loop_unroll)
  also have "\<dots> = spin_while_pending u call_res (log_of_spins u n (setup' u c) w1) cn wn"
    using state by simp
  also have "\<dots> = Some (spin_res, log_of_spins u n (setup' u c) w1 @ [(spin_res, results)], c', w')"
    using pending spin neg by (rule loop_abort)
  finally show ?thesis .
qed

lemma blockingCall_post:
  assumes call: "Super_call u server_node_id request (request_timeout c) w = (call_res, w1)"
    and ok: "0 \<le> call_res"
    and ret: "blockingCall u server_node_id request c w = Some y"
  shows "loop_post u call_res [] (setup' u c) y"
proof -
  from call ok ret have "spin_while_pending u call_res [] (setup' u c) w1 = Some y"
    by (simp add: blockingCall_issued)
  then show ?thesis by (rule loop_post_intro)
qed

lemma negative_entry_is_last:
  assumes "\<forall>e \<in> set (butlast ext). 0 \<le> fst (e :: int \<times> 'a)" and "i < length ext" and "fst (ext ! i) < 0"
  shows "Suc i = length ext"
proof (rule ccontr)
  assume "Suc i \<noteq> length ext"
  with assms(2) have i: "i < length (butlast ext)" by simp
  then have "butlast ext ! i \<in> set (butlast ext)" by (rule nth_mem)
  moreover have "butlast ext ! i = ext ! i" using i by (rule nth_butlast)
  ultimately have "0 \<le> fst (ext ! i)" using assms(1) by auto
  with assms(3) show False by simp
qed

text \<open>The client that \<open>blockingCall\<close> returns is the reset client after the deliveries of
  the log.\<close>

lemma blockingCall_client:
  assumes "blockingCall u server_node_id request c w = Some (r, log, c', w')"
  shows "c' = deliver (setup' u c) (concat (map snd log))"
proof -
  obtain call_res w1 where
    call: "Super_call u server_node_id request (request_timeout c) w = (call_res, w1)"
    by (cases "Super_call u server_node_id request (request_timeout c) w") auto
  show ?thesis
  proof (cases "0 \<le> call_res")
    case True
    have "loop_post u call_res [] (setup' u c) (r, log, c', w')"
      using call True assms by (rule blockingCall_post)
    then show ?thesis by (auto simp: loop_post_def)
  next
    case False
    with call assms show ?thesis
      by (simp add: blockingCall_def request_timeout_setup deliver_Nil)
  qed
qed

lemma blockingCall_setup: "blockingCall u server_node_id request (setup' u c) w =
   blockingCall u server_node_id request c w"
  by (simp add: blockingCall_def setup'_def)

lemma blockingCall_after_deliver:
  "blockingCall u server_node_id request (deliver (setup' u c) rs) w =
   blockingCall u server_node_id request c w"
proof -
  have "blockingCall u server_node_id request (deliver (setup' u c) rs) w =
        blockingCall u server_node_id request (setup' u (deliver (setup' u c) rs)) w"
    by (simp only: blockingCall_setup)
  also have "\<dots> = blockingCall u server_node_id request (setup' u c) w"
    by (simp only: setup_deliver)
  also have "\<dots> = blockingCall u server_node_id request c w"
    by (simp only: blockingCall_setup)
  finally show ?thesis .
qed

lemma blockingCall_request_timeout:
  assumes "blockingCall u server_node_id request c w = Some (r, log, c', w')"
  shows "request_timeout c' = request_timeout c"
proof -
  from assms have "c' = deliver (setup' u c) (concat (map snd log))"
    by (rule blockingCall_client)
  then show ?thesis
    by (simp add: request_timeout_deliver request_timeout_setup)
qed

lemma blockingCalls_request_timeout:
  "blockingCalls u calls c w = Some (c', w') \<Longrightarrow> request_timeout c' = request_timeout c"
proof (induction calls arbitrary: c w)
  case Nil
  then show ?case by simp
next
  case (Cons call calls)
  obtain server_node_id request where call: "call = (server_node_id, request)"
    by (cases call) auto
  from Cons.prems call obtain r log c1 w1 where
    first: "blockingCall u server_node_id request c w = Some (r, log, c1, w1)"
    and rest: "blockingCalls u calls c1 w1 = Some (c', w')"
    by (auto split: option.splits)
  from rest have "request_timeout c' = request_timeout c1" by (rule Cons.IH)
  also from first have "\<dots> = request_timeout c" by (rule blockingCall_request_timeout)
  finally show ?case .
qed

subsection \<open>A pending call under a runtime that resolves on delivery\<close>

lemma contract_step:
  assumes "resolves_on_delivery u" and "spin_once u c w = (s, rs, c', w')" and "Super_isPending u w'"
  shows "c' = c"
proof -
  from assms(2) obtain rs' where n: "Node_spin u SpinDuration w = (s, rs', w')" and c': "c' = deliver c rs'"
    by (auto simp: spin_once_def split: prod.splits)
  from assms(1) have "case Node_spin u SpinDuration w of
      (spin_res, results, w') \<Rightarrow> results \<noteq> [] \<longrightarrow> \<not> Super_isPending u w'"
    unfolding resolves_on_delivery_def by (elim allE)
  with n assms(3) have "rs' = []" by auto
  with c' show ?thesis by (simp add: deliver_Nil)
qed

lemma pending_at_start:
  assumes "spins_continue u n c w" and "after_spins u n c w = (cn, wn)" and "Super_isPending u wn"
  shows "Super_isPending u w"
  using assms by (cases n) auto

lemma pending_client_unchanged:
  assumes "resolves_on_delivery u"
  shows "spins_continue u n c w \<Longrightarrow> after_spins u n c w = (cn, wn) \<Longrightarrow> Super_isPending u wn
    \<Longrightarrow> cn = c"
proof (induction n arbitrary: c w)
  case 0
  then show ?case by simp
next
  case (Suc n)
  obtain s rs c1 w1 where step: "spin_once u c w = (s, rs, c1, w1)"
    by (cases "spin_once u c w") auto
  with Suc.prems have run: "spins_continue u n c1 w1" and st: "after_spins u n c1 w1 = (cn, wn)"
    by auto
  from run st Suc.prems(3) have "Super_isPending u w1" by (rule pending_at_start)
  with assms step have "c1 = c" by (rule contract_step)
  moreover from run st Suc.prems(3) have "cn = c1" by (rule Suc.IH)
  ultimately show ?case by simp
qed

lemma loop_pending_unchanged:
  assumes contract: "resolves_on_delivery u"
    and ret: "spin_while_pending u call_res log c w = Some y"
    and pending: "Super_isPending u (snd (snd (snd y)))"
  shows "fst (snd (snd y)) = c \<and> Super_isPending u w"
proof -
  have "resolves_on_delivery u \<longrightarrow> Super_isPending u (snd (snd (snd y))) \<longrightarrow>
      fst (snd (snd y)) = c \<and> Super_isPending u w"
  proof (rule spin_while_pending.raw_induct
      [where P = "\<lambda>u call_res log c w y. resolves_on_delivery u \<longrightarrow>
          Super_isPending u (snd (snd (snd y))) \<longrightarrow> fst (snd (snd y)) = c \<and> Super_isPending u w",
        OF _ ret], goal_cases)
    case (1 swp u call_res log c w y)
    show ?case
    proof (intro impI)
      assume contract: "resolves_on_delivery u"
        and pending: "Super_isPending u (snd (snd (snd y)))"
      show "fst (snd (snd y)) = c \<and> Super_isPending u w"
      proof (cases "Super_isPending u w")
        case False
        with 1(2) have "y = (call_res, log, c, w)" by simp
        with False pending show ?thesis by simp
      next
        case True
        obtain s rs c1 w1 where step: "spin_once u c w = (s, rs, c1, w1)"
          by (cases "spin_once u c w") auto
        show ?thesis
        proof (cases "s < 0")
          case neg: True
          with True step 1(2) have y: "y = (s, log @ [(s, rs)], c1, w1)" by simp
          with pending have "Super_isPending u w1" by simp
          with contract step have "c1 = c" by (rule contract_step)
          with y True show ?thesis by simp
        next
          case nonneg: False
          with True step 1(2) have "swp u call_res (log @ [(s, rs)]) c1 w1 = Some y" by simp
          from 1(1) [OF this] contract pending
          have end_c: "fst (snd (snd y)) = c1" and p1: "Super_isPending u w1"
            by simp_all
          from contract step p1 have "c1 = c" by (rule contract_step)
          with end_c True show ?thesis by simp
        qed
      qed
    qed
  qed
  with contract pending show ?thesis by simp
qed

lemma blockingCall_pending_client:
  assumes contract: "resolves_on_delivery u"
    and ret: "blockingCall u server_node_id request c w = Some (r, log, c', w')"
    and pending: "Super_isPending u w'"
  shows "c' = setup' u c"
proof -
  obtain call_res w1 where
    call: "Super_call u server_node_id request (request_timeout c) w = (call_res, w1)"
    by (cases "Super_call u server_node_id request (request_timeout c) w") auto
  show ?thesis
  proof (cases "0 \<le> call_res")
    case True
    with call ret have "spin_while_pending u call_res [] (setup' u c) w1 = Some (r, log, c', w')"
      by (simp add: blockingCall_issued)
    from loop_pending_unchanged [OF contract this] pending show ?thesis by simp
  next
    case False
    with call ret show ?thesis
      by (simp add: blockingCall_def request_timeout_setup)
  qed
qed

lemma sim_runtime_resolves_on_delivery: "resolves_on_delivery sim_runtime"
  by (auto simp: resolves_on_delivery_def sim_runtime_def split: list.splits)

text \<open>The definitions that evaluate the simulated runtime.\<close>

lemmas sim_defs =
  sim_runtime_def sim_client_def sim_start_def BlockingServiceClient_init_def setup'_def
  spin_once_def deliver_def callback_def isSuccessful_def

section \<open>The claims of the specification\<close>

text \<open>
  C2. When issuing the underlying call returns a negative status, \<open>blockingCall\<close> returns
  exactly that status and performs no spin at all: the log of spins is empty, and the runtime
  is left as the issuance left it. The client has been reset by \<^verbatim>\<open>setup()\<close>.
\<close>

theorem issuance_failure_skips_loop:
  assumes "Super_call u server_node_id request (request_timeout c) w = (call_res, w1)"
    and "call_res < 0"
  shows "blockingCall u server_node_id request c w = Some (call_res, [], setup' u c, w1)"
  using assms by (simp add: blockingCall_def setup'_def)

theorem issuance_failure_skips_loop_witness:
  "Super_call sim_runtime 42 () (request_timeout sim_client) (sim_start [- 5] [(0, [])])
     = (- 5, \<lparr>sim_pending = False, sim_calls = [], sim_spins = [(0, [])],
              sim_timeouts = [1000000]\<rparr>)
   \<and> blockingCall sim_runtime 42 () sim_client (sim_start [- 5] [(0, [])])
     = Some (- 5, [], sim_client,
         \<lparr>sim_pending = False, sim_calls = [], sim_spins = [(0, [])],
          sim_timeouts = [1000000]\<rparr>)"
proof -
  let ?w1 = "\<lparr>sim_pending = False, sim_calls = [], sim_spins = [(0, [])],
            sim_timeouts = [1000000]\<rparr>"
  have call: "Super_call sim_runtime 42 () (request_timeout sim_client) (sim_start [- 5] [(0, [])])
      = (- 5, ?w1)"
    by (simp add: sim_defs)
  have same: "setup' sim_runtime sim_client = sim_client"
    by (simp add: sim_defs)
  from issuance_failure_skips_loop [OF call] same call show ?thesis by simp
qed

text \<open>
  C1. After a successful issuance, let the loop make \<open>n\<close> passes and come back to its test
  with the call still pending, and let the next spin return a negative status. Then
  \<open>blockingCall\<close> returns that status, and the failing spin is the last one: the log holds
  exactly \<open>n + 1\<close> spins. Conversely, whenever \<open>blockingCall\<close> returns, a spin of its log
  with a negative status is the last spin of the log and its status is the returned value.
\<close>

theorem spin_error_returned_at_once:
  assumes call: "Super_call u server_node_id request (request_timeout c) w = (call_res, w1)"
    and ok: "0 \<le> call_res"
  shows "(\<forall>n cn wn spin_res results c' w'.
            spins_continue u n (setup' u c) w1 \<and> after_spins u n (setup' u c) w1 = (cn, wn) \<and>
            Super_isPending u wn \<and> spin_once u cn wn = (spin_res, results, c', w') \<and> spin_res < 0
            \<longrightarrow> blockingCall u server_node_id request c w =
                  Some (spin_res, log_of_spins u n (setup' u c) w1 @ [(spin_res, results)], c', w')
                \<and> length (log_of_spins u n (setup' u c) w1 @ [(spin_res, results)]) = Suc n)
       \<and> (\<forall>r log c' w' i.
            blockingCall u server_node_id request c w = Some (r, log, c', w') \<and>
            i < length log \<and> fst (log ! i) < 0
            \<longrightarrow> r = fst (log ! i) \<and> Suc i = length log)"
proof (intro conjI allI impI)
  fix n cn wn spin_res results c' w'
  assume h: "spins_continue u n (setup' u c) w1 \<and> after_spins u n (setup' u c) w1 = (cn, wn) \<and>
            Super_isPending u wn \<and> spin_once u cn wn = (spin_res, results, c', w') \<and> spin_res < 0"
  then show "blockingCall u server_node_id request c w =
        Some (spin_res, log_of_spins u n (setup' u c) w1 @ [(spin_res, results)], c', w')"
    using blockingCall_aborts [OF call ok] by blast
  show "length (log_of_spins u n (setup' u c) w1 @ [(spin_res, results)]) = Suc n"
    by (simp add: length_log_of_spins)
next
  fix r log c' w' i
  assume h: "blockingCall u server_node_id request c w = Some (r, log, c', w') \<and>
            i < length log \<and> fst (log ! i) < 0"
  then have "loop_post u call_res [] (setup' u c) (r, log, c', w')"
    using blockingCall_post [OF call ok] by blast
  then have alt: "(r = call_res \<and> (\<forall>e \<in> set log. 0 \<le> fst e)) \<or>
       (r < 0 \<and> log \<noteq> [] \<and> fst (last log) = r \<and> (\<forall>e \<in> set (butlast log). 0 \<le> fst e))"
    by (auto simp: loop_post_def)
  from h have i: "i < length log" and neg: "fst (log ! i) < 0" by simp_all
  from i have "log ! i \<in> set log" by (rule nth_mem)
  with neg alt have last: "fst (last log) = r" and "log \<noteq> []"
    and front: "\<forall>e \<in> set (butlast log). 0 \<le> fst e"
    by auto
  from front i neg have len: "Suc i = length log" by (rule negative_entry_is_last)
  from len have "length log - 1 = i" by simp
  with \<open>log \<noteq> []\<close> have "last log = log ! i" by (simp add: last_conv_nth)
  with last len show "r = fst (log ! i)" "Suc i = length log" by simp_all
qed

theorem spin_error_returned_at_once_witness:
  "Super_call sim_runtime 42 () (request_timeout sim_client)
     (sim_start [0] [(0, []), (- 3, []), (0, [])])
     = (0, \<lparr>sim_pending = True, sim_calls = [], sim_spins = [(0, []), (- 3, []), (0, [])],
            sim_timeouts = [1000000]\<rparr>)
   \<and> blockingCall sim_runtime 42 () sim_client (sim_start [0] [(0, []), (- 3, []), (0, [])])
     = Some (- 3, [(0, []), (- 3, [])], sim_client,
         \<lparr>sim_pending = True, sim_calls = [], sim_spins = [(0, [])],
          sim_timeouts = [1000000]\<rparr>)"
proof -
  let ?u = "sim_runtime"
  let ?w0 = "sim_start [0] [(0, []), (- 3, []), (0, [])]"
  let ?w1 = "\<lparr>sim_pending = True, sim_calls = [], sim_spins = [(0, []), (- 3, []), (0, [])],
            sim_timeouts = [1000000]\<rparr>"
  let ?w2 = "\<lparr>sim_pending = True, sim_calls = [], sim_spins = [(- 3, []), (0, [])],
            sim_timeouts = [1000000]\<rparr>"
  let ?w3 = "\<lparr>sim_pending = True, sim_calls = [], sim_spins = [(0, [])],
            sim_timeouts = [1000000]\<rparr>"
  have call: "Super_call ?u 42 () (request_timeout sim_client) ?w0 = (0, ?w1)"
    by (simp add: sim_defs)
  have ok: "(0::int) \<le> 0" by simp
  have run: "spins_continue ?u (Suc 0) (setup' ?u sim_client) ?w1 \<and>
      after_spins ?u (Suc 0) (setup' ?u sim_client) ?w1 = (sim_client, ?w2) \<and>
      Super_isPending ?u ?w2 \<and> spin_once ?u sim_client ?w2 = (- 3, [], sim_client, ?w3) \<and>
      (- 3 :: int) < 0"
    by (simp add: sim_defs)
  have log: "log_of_spins ?u (Suc 0) (setup' ?u sim_client) ?w1 = [(0, [])]"
    by (simp add: sim_defs)
  from spin_error_returned_at_once [OF call ok, THEN conjunct1, rule_format, OF run] log call
  show ?thesis by simp
qed

text \<open>
  C3. After a successful issuance, if \<open>blockingCall\<close> returns and no spin of its log returned
  a negative status, the returned value is the status of the issuance, whatever the callback
  recorded. And it does return: if the loop makes \<open>n\<close> passes and then finds the call
  resolved, \<open>blockingCall\<close> returns the status of the issuance after exactly these \<open>n\<close> spins.
\<close>

theorem no_spin_error_returns_issuance_status:
  assumes call: "Super_call u server_node_id request (request_timeout c) w = (call_res, w1)"
    and ok: "0 \<le> call_res"
  shows "(\<forall>r log c' w'.
            blockingCall u server_node_id request c w = Some (r, log, c', w') \<and>
            (\<forall>e \<in> set log. 0 \<le> fst e)
            \<longrightarrow> r = call_res)
       \<and> (\<forall>n cn wn.
            spins_continue u n (setup' u c) w1 \<and> after_spins u n (setup' u c) w1 = (cn, wn) \<and>
            \<not> Super_isPending u wn
            \<longrightarrow> blockingCall u server_node_id request c w =
                  Some (call_res, log_of_spins u n (setup' u c) w1, cn, wn))"
proof (intro conjI allI impI)
  fix r log c' w'
  assume h: "blockingCall u server_node_id request c w = Some (r, log, c', w') \<and>
            (\<forall>e \<in> set log. 0 \<le> fst e)"
  then have "loop_post u call_res [] (setup' u c) (r, log, c', w')"
    using blockingCall_post [OF call ok] by blast
  then have alt: "r = call_res \<or> (r < 0 \<and> log \<noteq> [] \<and> fst (last log) = r)"
    by (auto simp: loop_post_def)
  show "r = call_res"
  proof (rule ccontr)
    assume "r \<noteq> call_res"
    with alt have "r < 0" "log \<noteq> []" "fst (last log) = r" by simp_all
    moreover from \<open>log \<noteq> []\<close> have "last log \<in> set log" by simp
    moreover from h have "\<forall>e \<in> set log. 0 \<le> fst e" by simp
    ultimately have "0 \<le> r" by blast
    with \<open>r < 0\<close> show False by simp
  qed
next
  fix n cn wn
  assume "spins_continue u n (setup' u c) w1 \<and> after_spins u n (setup' u c) w1 = (cn, wn) \<and>
            \<not> Super_isPending u wn"
  then show "blockingCall u server_node_id request c w =
                  Some (call_res, log_of_spins u n (setup' u c) w1, cn, wn)"
    using blockingCall_exits [OF call ok] by blast
qed

theorem no_spin_error_returns_issuance_status_witness:
  "Super_call sim_runtime 42 () (request_timeout sim_client)
     (sim_start [3] [(0, []), (1, []), (0, [\<lparr>res_response = 7, res_successful = False\<rparr>])])
     = (3, \<lparr>sim_pending = True, sim_calls = [],
            sim_spins = [(0, []), (1, []), (0, [\<lparr>res_response = 7, res_successful = False\<rparr>])],
            sim_timeouts = [1000000]\<rparr>)
   \<and> blockingCall sim_runtime 42 () sim_client
     (sim_start [3] [(0, []), (1, []), (0, [\<lparr>res_response = 7, res_successful = False\<rparr>])])
     = Some (3, [(0, []), (1, []), (0, [\<lparr>res_response = 7, res_successful = False\<rparr>])],
         sim_client\<lparr>response := 7\<rparr>,
         \<lparr>sim_pending = False, sim_calls = [], sim_spins = [], sim_timeouts = [1000000]\<rparr>)"
proof -
  let ?u = "sim_runtime"
  let ?w0 = "sim_start [3] [(0, []), (1, []), (0, [\<lparr>res_response = 7, res_successful = False\<rparr>])]"
  let ?w1 = "\<lparr>sim_pending = True, sim_calls = [],
            sim_spins = [(0, []), (1, []), (0, [\<lparr>res_response = 7, res_successful = False\<rparr>])],
            sim_timeouts = [1000000]\<rparr>"
  let ?wn = "\<lparr>sim_pending = False, sim_calls = [], sim_spins = [], sim_timeouts = [1000000]\<rparr>"
  have call: "Super_call ?u 42 () (request_timeout sim_client) ?w0 = (3, ?w1)"
    by (simp add: sim_defs)
  have ok: "(0::int) \<le> 3" by simp
  have run: "spins_continue ?u (Suc (Suc (Suc 0))) (setup' ?u sim_client) ?w1 \<and>
      after_spins ?u (Suc (Suc (Suc 0))) (setup' ?u sim_client) ?w1
        = (sim_client\<lparr>response := 7\<rparr>, ?wn) \<and>
      \<not> Super_isPending ?u ?wn"
    by (simp add: sim_defs)
  have log: "log_of_spins ?u (Suc (Suc (Suc 0))) (setup' ?u sim_client) ?w1
      = [(0, []), (1, []), (0, [\<lparr>res_response = 7, res_successful = False\<rparr>])]"
    by (simp add: sim_defs)
  from no_spin_error_returns_issuance_status [OF call ok, THEN conjunct2, rule_format, OF run]
    log call
  show ?thesis by simp
qed

text \<open>
  C9. Whenever \<open>blockingCall\<close> returns a non-negative status, the wrapped client does not
  report the call pending in the runtime it leaves behind.
\<close>

theorem nonnegative_return_not_pending:
  assumes "blockingCall u server_node_id request c w = Some (r, log, c', w')"
    and "0 \<le> r"
  shows "\<not> Super_isPending u w'"
proof -
  obtain call_res w1 where
    call: "Super_call u server_node_id request (request_timeout (setup' u c)) w = (call_res, w1)"
    by (cases "Super_call u server_node_id request (request_timeout (setup' u c)) w") auto
  show ?thesis
  proof (cases "0 \<le> call_res")
    case True
    with assms(1) call
    have "spin_while_pending u call_res [] (setup' u c) w1 = Some (r, log, c', w')"
      by (simp add: blockingCall_def)
    then have "loop_post u call_res [] (setup' u c) (r, log, c', w')"
      by (rule loop_post_intro)
    with assms(2) show ?thesis
      by (auto simp: loop_post_def)
  next
    case False
    with assms call show ?thesis
      by (simp add: blockingCall_def)
  qed
qed

theorem nonnegative_return_not_pending_witness:
  "blockingCall sim_runtime 17 () sim_client
     (sim_start [1] [(0, [\<lparr>res_response = 9, res_successful = True\<rparr>])])
     = Some (1, [(0, [\<lparr>res_response = 9, res_successful = True\<rparr>])],
         sim_client\<lparr>response := 9, call_was_successful := True\<rparr>,
         \<lparr>sim_pending = False, sim_calls = [], sim_spins = [], sim_timeouts = [1000000]\<rparr>)
   \<and> (0::int) \<le> 1
   \<and> \<not> Super_isPending sim_runtime
         \<lparr>sim_pending = False, sim_calls = [], sim_spins = [], sim_timeouts = [1000000]\<rparr>"
proof -
  let ?u = "sim_runtime"
  let ?w0 = "sim_start [1] [(0, [\<lparr>res_response = 9, res_successful = True\<rparr>])]"
  let ?w1 = "\<lparr>sim_pending = True, sim_calls = [],
            sim_spins = [(0, [\<lparr>res_response = 9, res_successful = True\<rparr>])],
            sim_timeouts = [1000000]\<rparr>"
  let ?wn = "\<lparr>sim_pending = False, sim_calls = [], sim_spins = [], sim_timeouts = [1000000]\<rparr>"
  let ?cn = "sim_client\<lparr>response := 9, call_was_successful := True\<rparr>"
  have call: "Super_call ?u 17 () (request_timeout sim_client) ?w0 = (1, ?w1)"
    by (simp add: sim_defs)
  have ok: "(0::int) \<le> 1" by simp
  have run: "spins_continue ?u (Suc 0) (setup' ?u sim_client) ?w1"
    by (simp add: sim_defs)
  have state: "after_spins ?u (Suc 0) (setup' ?u sim_client) ?w1 = (?cn, ?wn)"
    by (simp add: sim_defs)
  have resolved: "\<not> Super_isPending ?u ?wn"
    by (simp add: sim_defs)
  have log: "log_of_spins ?u (Suc 0) (setup' ?u sim_client) ?w1
      = [(0, [\<lparr>res_response = 9, res_successful = True\<rparr>])]"
    by (simp add: sim_defs)
  have ret: "blockingCall ?u 17 () sim_client ?w0
      = Some (1, [(0, [\<lparr>res_response = 9, res_successful = True\<rparr>])], ?cn, ?wn)"
    using blockingCall_exits [OF call ok run state resolved] log by simp
  from nonnegative_return_not_pending [OF ret ok] ret show ?thesis by simp
qed

text \<open>
  C4. Let a first \<open>blockingCall\<close> have returned, with whatever status and outcome. A second
  call on the client it left runs exactly as it would on the client as it was before the
  first call, and exactly as it would with any other stored response and success flag: the
  reset at the head of \<open>blockingCall\<close> discards them. When the second call returns,
  \<^verbatim>\<open>wasSuccessful()\<close> and \<^verbatim>\<open>getResponse()\<close> show the last result delivered during the
  second call, and the defaults if none was delivered.
\<close>

theorem second_call_reflects_only_itself:
  assumes first: "blockingCall u first_id first_request c0 w0 = Some (r1, log1, c1, w1)"
  shows "blockingCall u next_id next_request c1 w1 = blockingCall u next_id next_request c0 w1
       \<and> blockingCall u next_id next_request (c1\<lparr>response := stale, call_was_successful := flag\<rparr>) w1
           = blockingCall u next_id next_request c1 w1
       \<and> (\<forall>r2 log2 c2 w2.
            blockingCall u next_id next_request c1 w1 = Some (r2, log2, c2, w2) \<longrightarrow>
              wasSuccessful c2 = fst (last_outcome u (concat (map snd log2))) \<and>
              getResponse c2 = snd (last_outcome u (concat (map snd log2))))"
proof (intro conjI allI impI)
  from first have c1: "c1 = deliver (setup' u c0) (concat (map snd log1))"
    by (rule blockingCall_client)
  show "blockingCall u next_id next_request c1 w1 = blockingCall u next_id next_request c0 w1"
    unfolding c1 by (rule blockingCall_after_deliver)
  show "blockingCall u next_id next_request (c1\<lparr>response := stale, call_was_successful := flag\<rparr>) w1
           = blockingCall u next_id next_request c1 w1"
    by (simp add: blockingCall_def setup'_def)
next
  fix r2 log2 c2 w2
  assume "blockingCall u next_id next_request c1 w1 = Some (r2, log2, c2, w2)"
  then have "c2 = deliver (setup' u c1) (concat (map snd log2))"
    by (rule blockingCall_client)
  then show "wasSuccessful c2 = fst (last_outcome u (concat (map snd log2)))"
    and "getResponse c2 = snd (last_outcome u (concat (map snd log2)))"
    using outcome_deliver_setup [of u c1 "concat (map snd log2)"]
    by (simp_all add: wasSuccessful_def getResponse_def)
qed

theorem second_call_reflects_only_itself_witness:
  "blockingCall sim_runtime 42 () sim_client
     (sim_start [0, - 4] [(0, [\<lparr>res_response = 7, res_successful = True\<rparr>])])
     = Some (0, [(0, [\<lparr>res_response = 7, res_successful = True\<rparr>])],
         sim_client\<lparr>response := 7, call_was_successful := True\<rparr>,
         \<lparr>sim_pending = False, sim_calls = [- 4], sim_spins = [], sim_timeouts = [1000000]\<rparr>)
   \<and> blockingCall sim_runtime 42 () (sim_client\<lparr>response := 7, call_was_successful := True\<rparr>)
         \<lparr>sim_pending = False, sim_calls = [- 4], sim_spins = [], sim_timeouts = [1000000]\<rparr>
     = Some (- 4, [], sim_client,
         \<lparr>sim_pending = False, sim_calls = [], sim_spins = [],
          sim_timeouts = [1000000, 1000000]\<rparr>)
   \<and> wasSuccessful sim_client = False \<and> getResponse sim_client = 0
   \<and> last_outcome sim_runtime (concat (map snd [])) = (False, 0)"
proof -
  let ?u = "sim_runtime"
  let ?ok = "\<lparr>res_response = 7 :: nat, res_successful = True\<rparr>"
  let ?w0 = "sim_start [0, - 4] [(0, [?ok])]"
  let ?w0' = "\<lparr>sim_pending = True, sim_calls = [- 4], sim_spins = [(0, [?ok])],
            sim_timeouts = [1000000]\<rparr>"
  let ?w1 = "\<lparr>sim_pending = False, sim_calls = [- 4], sim_spins = [], sim_timeouts = [1000000]\<rparr>"
  let ?w2 = "\<lparr>sim_pending = False, sim_calls = [], sim_spins = [],
            sim_timeouts = [1000000, 1000000]\<rparr>"
  let ?c1 = "sim_client\<lparr>response := 7, call_was_successful := True\<rparr>"
  have call1: "Super_call ?u 42 () (request_timeout sim_client) ?w0 = (0, ?w0')"
    by (simp add: sim_defs)
  have ok: "(0::int) \<le> 0" by simp
  have run: "spins_continue ?u (Suc 0) (setup' ?u sim_client) ?w0'"
    by (simp add: sim_defs)
  have state: "after_spins ?u (Suc 0) (setup' ?u sim_client) ?w0' = (?c1, ?w1)"
    by (simp add: sim_defs)
  have resolved: "\<not> Super_isPending ?u ?w1"
    by (simp add: sim_defs)
  have log: "log_of_spins ?u (Suc 0) (setup' ?u sim_client) ?w0' = [(0, [?ok])]"
    by (simp add: sim_defs)
  have first: "blockingCall ?u 42 () sim_client ?w0 = Some (0, [(0, [?ok])], ?c1, ?w1)"
    using blockingCall_exits [OF call1 ok run state resolved] log by simp
  have second: "blockingCall ?u 42 () sim_client ?w1 = Some (- 4, [], sim_client, ?w2)"
    by (simp add: blockingCall_def sim_defs)
  from second_call_reflects_only_itself
    [OF first, where next_id = 42 and next_request = "()" and stale = 0 and flag = False] second
  have "blockingCall ?u 42 () ?c1 ?w1 = Some (- 4, [], sim_client, ?w2)"
    and "wasSuccessful sim_client = fst (last_outcome ?u (concat (map snd [])))"
    and "getResponse sim_client = snd (last_outcome ?u (concat (map snd [])))"
    by simp_all
  moreover have "last_outcome ?u (concat (map snd [])) = (False, 0)"
    by (simp add: last_outcome_def sim_defs)
  ultimately show ?thesis using first by simp
qed

text \<open>
  C8. A freshly constructed client shows \<open>False\<close> and the default response. For a runtime that
  resolves the call when it delivers a result, so does a client whose call is pending: at
  the head of the loop after any number of spins, and after \<open>blockingCall\<close> has returned
  while the wrapped client still reports the call pending.
\<close>

theorem defaults_before_and_while_pending:
  "wasSuccessful (BlockingServiceClient_init u default_timeout) = False
   \<and> getResponse (BlockingServiceClient_init u default_timeout) = Response_init u
   \<and> (resolves_on_delivery u \<longrightarrow>
        (\<forall>server_node_id request c w call_res w1 n cn wn.
           Super_call u server_node_id request (request_timeout c) w = (call_res, w1) \<and>
           0 \<le> call_res \<and> spins_continue u n (setup' u c) w1 \<and>
           after_spins u n (setup' u c) w1 = (cn, wn) \<and> Super_isPending u wn
           \<longrightarrow> wasSuccessful cn = False \<and> getResponse cn = Response_init u)
      \<and> (\<forall>server_node_id request c w r log c' w'.
           blockingCall u server_node_id request c w = Some (r, log, c', w') \<and>
           Super_isPending u w'
           \<longrightarrow> wasSuccessful c' = False \<and> getResponse c' = Response_init u))"
proof (intro conjI impI allI)
  show "wasSuccessful (BlockingServiceClient_init u default_timeout) = False"
    and "getResponse (BlockingServiceClient_init u default_timeout) = Response_init u"
    using fresh_client [of u default_timeout]
    by (simp_all add: wasSuccessful_def getResponse_def)
next
  fix server_node_id request c w call_res w1 n cn wn
  assume contract: "resolves_on_delivery u"
    and h: "Super_call u server_node_id request (request_timeout c) w = (call_res, w1) \<and>
           0 \<le> call_res \<and> spins_continue u n (setup' u c) w1 \<and>
           after_spins u n (setup' u c) w1 = (cn, wn) \<and> Super_isPending u wn"
  from h have "spins_continue u n (setup' u c) w1"
    and "after_spins u n (setup' u c) w1 = (cn, wn)" and "Super_isPending u wn"
    by simp_all
  with contract have "cn = setup' u c" by (rule pending_client_unchanged)
  then show "wasSuccessful cn = False" and "getResponse cn = Response_init u"
    using setup_outcome [of u c] by (simp_all add: wasSuccessful_def getResponse_def)
next
  fix server_node_id request c w r log c' w'
  assume contract: "resolves_on_delivery u"
    and h: "blockingCall u server_node_id request c w = Some (r, log, c', w') \<and>
           Super_isPending u w'"
  from h have "blockingCall u server_node_id request c w = Some (r, log, c', w')"
    and "Super_isPending u w'" by simp_all
  with contract have "c' = setup' u c" by (rule blockingCall_pending_client)
  then show "wasSuccessful c' = False" and "getResponse c' = Response_init u"
    using setup_outcome [of u c] by (simp_all add: wasSuccessful_def getResponse_def)
qed

theorem defaults_before_and_while_pending_witness:
  "wasSuccessful sim_client = False \<and> getResponse sim_client = 0
   \<and> resolves_on_delivery sim_runtime
   \<and> Super_call sim_runtime 5 () (request_timeout sim_client)
       (sim_start [2] [(0, []), (- 1, [])])
       = (2, \<lparr>sim_pending = True, sim_calls = [], sim_spins = [(0, []), (- 1, [])],
              sim_timeouts = [1000000]\<rparr>)
   \<and> after_spins sim_runtime (Suc 0)
       (setup' sim_runtime (sim_client\<lparr>response := 8, call_was_successful := True\<rparr>))
       \<lparr>sim_pending = True, sim_calls = [], sim_spins = [(0, []), (- 1, [])],
        sim_timeouts = [1000000]\<rparr>
       = (sim_client,
          \<lparr>sim_pending = True, sim_calls = [], sim_spins = [(- 1, [])],
           sim_timeouts = [1000000]\<rparr>)
   \<and> blockingCall sim_runtime 5 () (sim_client\<lparr>response := 8, call_was_successful := True\<rparr>)
       (sim_start [2] [(0, []), (- 1, [])])
       = Some (- 1, [(0, []), (- 1, [])], sim_client,
           \<lparr>sim_pending = True, sim_calls = [], sim_spins = [], sim_timeouts = [1000000]\<rparr>)"
proof -
  let ?u = "sim_runtime"
  let ?c = "sim_client\<lparr>response := 8, call_was_successful := True\<rparr>"
  let ?w0 = "sim_start [2] [(0, []), (- 1, [])]"
  let ?w1 = "\<lparr>sim_pending = True, sim_calls = [], sim_spins = [(0, []), (- 1, [])],
            sim_timeouts = [1000000]\<rparr>"
  let ?w2 = "\<lparr>sim_pending = True, sim_calls = [], sim_spins = [(- 1, [])],
            sim_timeouts = [1000000]\<rparr>"
  let ?w3 = "\<lparr>sim_pending = True, sim_calls = [], sim_spins = [], sim_timeouts = [1000000]\<rparr>"
  note inst = defaults_before_and_while_pending [of ?u 1000000]
  have init: "BlockingServiceClient_init ?u 1000000 = sim_client"
    by (simp add: sim_client_def)
  have contract: "resolves_on_delivery ?u"
    by (rule sim_runtime_resolves_on_delivery)
  have call: "Super_call ?u 5 () (request_timeout ?c) ?w0 = (2, ?w1)"
    by (simp add: sim_defs)
  have ok: "(0::int) \<le> 2" by simp
  have run: "spins_continue ?u (Suc 0) (setup' ?u ?c) ?w1"
    by (simp add: sim_defs)
  have state: "after_spins ?u (Suc 0) (setup' ?u ?c) ?w1 = (sim_client, ?w2)"
    by (simp add: sim_defs)
  have pending: "Super_isPending ?u ?w2"
    by (simp add: sim_defs)
  have spin: "spin_once ?u sim_client ?w2 = (- 1, [], sim_client, ?w3)"
    by (simp add: sim_defs)
  have neg: "(- 1 :: int) < 0" by simp
  have log: "log_of_spins ?u (Suc 0) (setup' ?u ?c) ?w1 = [(0, [])]"
    by (simp add: sim_defs)
  have ret: "blockingCall ?u 5 () ?c ?w0 = Some (- 1, [(0, []), (- 1, [])], sim_client, ?w3)"
    using blockingCall_aborts [OF call ok run state pending spin neg] log by simp
  have still: "Super_isPending ?u ?w3"
    by (simp add: sim_defs)
  from inst have "wasSuccessful sim_client = False \<and> getResponse sim_client = Response_init ?u"
    using init by simp
  moreover have "Response_init ?u = 0" by (simp add: sim_runtime_def)
  moreover from inst contract call ok run state pending
  have "wasSuccessful sim_client = False" by blast
  moreover from inst contract ret still
  have "getResponse sim_client = Response_init ?u" by blast
  moreover have "request_timeout ?c = request_timeout sim_client" by simp
  ultimately show ?thesis using contract call state ret by simp
qed

text \<open>
  C10. The overload with a timeout hands that timeout to the issuance, and the client it
  returns still holds it, on every return path. After any sequence of later calls through
  the overload without a timeout the client holds it still, and a further such call is the
  same computation as a call through the overload with that timeout.
\<close>

theorem timeout_persists:
  assumes "blockingCall_timeout u server_node_id request timeout c w = Some (r, log, c1, w1)"
  shows "blockingCall_timeout u server_node_id request timeout c w =
           (case Super_call u server_node_id request timeout w of
              (call_res, w') \<Rightarrow>
                if 0 \<le> call_res
                then spin_while_pending u call_res [] (setup' u (setRequestTimeout timeout c)) w'
                else Some (call_res, [], setup' u (setRequestTimeout timeout c), w'))
       \<and> request_timeout c1 = timeout
       \<and> (\<forall>calls c2 w2.
            blockingCalls u calls c1 w1 = Some (c2, w2) \<longrightarrow>
              request_timeout c2 = timeout \<and>
              (\<forall>next_id next_request.
                 blockingCall u next_id next_request c2 w2 =
                 blockingCall_timeout u next_id next_request timeout c2 w2))"
proof (intro conjI allI impI)
  show "blockingCall_timeout u server_node_id request timeout c w =
           (case Super_call u server_node_id request timeout w of
              (call_res, w') \<Rightarrow>
                if 0 \<le> call_res
                then spin_while_pending u call_res [] (setup' u (setRequestTimeout timeout c)) w'
                else Some (call_res, [], setup' u (setRequestTimeout timeout c), w'))"
    by (simp add: blockingCall_timeout_def blockingCall_def request_timeout_setup
        request_timeout_set Let_def)
  from assms
  have "blockingCall u server_node_id request (setRequestTimeout timeout c) w = Some (r, log, c1, w1)"
    by (simp add: blockingCall_timeout_def)
  then have "request_timeout c1 = request_timeout (setRequestTimeout timeout c)"
    by (rule blockingCall_request_timeout)
  then show t1: "request_timeout c1 = timeout"
    by (simp add: setRequestTimeout_def)
  fix calls c2 w2
  assume "blockingCalls u calls c1 w1 = Some (c2, w2)"
  then have "request_timeout c2 = request_timeout c1"
    by (rule blockingCalls_request_timeout)
  with t1 show t2: "request_timeout c2 = timeout" by simp
  fix next_id next_request
  from t2 have "setRequestTimeout timeout c2 = c2" by (rule setRequestTimeout_same)
  then show "blockingCall u next_id next_request c2 w2 =
        blockingCall_timeout u next_id next_request timeout c2 w2"
    by (simp add: blockingCall_timeout_def)
qed

theorem timeout_persists_witness:
  "blockingCall_timeout sim_runtime 3 () 2500 sim_client (sim_start [- 1, - 2, - 3] [])
     = Some (- 1, [], sim_client\<lparr>request_timeout := 2500\<rparr>,
         \<lparr>sim_pending = False, sim_calls = [- 2, - 3], sim_spins = [], sim_timeouts = [2500]\<rparr>)
   \<and> request_timeout sim_client = 1000000
   \<and> blockingCalls sim_runtime [(3, ())] (sim_client\<lparr>request_timeout := 2500\<rparr>)
         \<lparr>sim_pending = False, sim_calls = [- 2, - 3], sim_spins = [], sim_timeouts = [2500]\<rparr>
     = Some (sim_client\<lparr>request_timeout := 2500\<rparr>,
         \<lparr>sim_pending = False, sim_calls = [- 3], sim_spins = [],
          sim_timeouts = [2500, 2500]\<rparr>)
   \<and> blockingCall sim_runtime 3 () (sim_client\<lparr>request_timeout := 2500\<rparr>)
         \<lparr>sim_pending = False, sim_calls = [- 3], sim_spins = [], sim_timeouts = [2500, 2500]\<rparr>
     = blockingCall_timeout sim_runtime 3 () 2500 (sim_client\<lparr>request_timeout := 2500\<rparr>)
         \<lparr>sim_pending = False, sim_calls = [- 3], sim_spins = [], sim_timeouts = [2500, 2500]\<rparr>
   \<and> blockingCall sim_runtime 3 () (sim_client\<lparr>request_timeout := 2500\<rparr>)
         \<lparr>sim_pending = False, sim_calls = [- 3], sim_spins = [], sim_timeouts = [2500, 2500]\<rparr>
     = Some (- 3, [], sim_client\<lparr>request_timeout := 2500\<rparr>,
         \<lparr>sim_pending = False, sim_calls = [], sim_spins = [],
          sim_timeouts = [2500, 2500, 2500]\<rparr>)"
proof -
  let ?u = "sim_runtime"
  let ?c1 = "sim_client\<lparr>request_timeout := 2500\<rparr>"
  let ?w1 = "\<lparr>sim_pending = False, sim_calls = [- 2, - 3], sim_spins = [], sim_timeouts = [2500]\<rparr>"
  let ?w2 = "\<lparr>sim_pending = False, sim_calls = [- 3], sim_spins = [],
            sim_timeouts = [2500, 2500]\<rparr>"
  have first: "blockingCall_timeout ?u 3 () 2500 sim_client (sim_start [- 1, - 2, - 3] [])
      = Some (- 1, [], ?c1, ?w1)"
    by (simp add: blockingCall_timeout_def blockingCall_def setRequestTimeout_def sim_defs)
  have later: "blockingCalls ?u [(3, ())] ?c1 ?w1 = Some (?c1, ?w2)"
    by (simp add: blockingCall_def sim_defs)
  from timeout_persists [OF first, THEN conjunct2, THEN conjunct2, rule_format, OF later]
  have "blockingCall ?u 3 () ?c1 ?w2 = blockingCall_timeout ?u 3 () 2500 ?c1 ?w2"
    by simp
  moreover have "blockingCall ?u 3 () ?c1 ?w2
      = Some (- 3, [], ?c1, \<lparr>sim_pending = False, sim_calls = [], sim_spins = [],
          sim_timeouts = [2500, 2500, 2500]\<rparr>)"
    by (simp add: blockingCall_def sim_defs)
  moreover have "request_timeout sim_client = 1000000"
    by (simp add: sim_defs)
  ultimately show ?thesis using first later by simp
qed

text \<open>
  C5. \<open>makeNode\<close> attaches the names in list order. If every name attaches successfully,
  it returns a node that owns a driver pack with the clock of the given mode and exactly the
  listed interfaces, in order. If the names before \<open>ifn\<close> attach and \<open>ifn\<close> does not,
  it throws the exception whose message names \<open>ifn\<close>, whatever follows \<open>ifn\<close> in the list,
  and yields no node. It returns a node if and only if every name attaches.
\<close>

theorem makeNode_all_or_nothing:
  "(all_attach probe [] iface_names \<longrightarrow>
      makeNode probe iface_names mode =
        Inr \<lparr>driver_pack = Some \<lparr>clock = mode, can = \<lparr>ifaces = iface_names\<rparr>\<rparr>,
             external_sink_set = True\<rparr>)
   \<and> (\<forall>pre ifn rest.
        iface_names = pre @ ifn # rest \<and> all_attach probe [] pre \<and> probe ifn pre < 0 \<longrightarrow>
        makeNode probe iface_names mode = Inl (Exception (''Failed to add iface '' @ ifn)))
   \<and> ((\<exists>node. makeNode probe iface_names mode = Inr node) = all_attach probe [] iface_names)"
proof (intro conjI allI impI)
  assume "all_attach probe [] iface_names"
  then show "makeNode probe iface_names mode =
        Inr \<lparr>driver_pack = Some \<lparr>clock = mode, can = \<lparr>ifaces = iface_names\<rparr>\<rparr>,
             external_sink_set = True\<rparr>"
    by (rule makeNode_ok)
next
  fix pre ifn rest
  assume "iface_names = pre @ ifn # rest \<and> all_attach probe [] pre \<and> probe ifn pre < 0"
  then show "makeNode probe iface_names mode = Inl (Exception (''Failed to add iface '' @ ifn))"
    using makeNode_fail [of probe pre ifn rest mode] by simp
next
  show "(\<exists>node. makeNode probe iface_names mode = Inr node) = all_attach probe [] iface_names"
  proof (cases "all_attach probe [] iface_names")
    case True
    then show ?thesis using makeNode_ok [of probe iface_names mode] by simp
  next
    case False
    then obtain pre ifn rest where "iface_names = pre @ ifn # rest"
      and "all_attach probe [] pre" and "probe ifn ([] @ pre) < 0"
      using first_failure [of probe "[]" iface_names] by blast
    then have "makeNode probe iface_names mode = Inl (Exception (''Failed to add iface '' @ ifn))"
      using makeNode_fail [of probe pre ifn rest mode] by simp
    with False show ?thesis by simp
  qed
qed

theorem makeNode_all_or_nothing_witness:
  "all_attach sim_probe [] [''can0'', ''vcan0'']
   \<and> makeNode sim_probe [''can0'', ''vcan0''] True =
        Inr \<lparr>driver_pack = Some \<lparr>clock = True, can = \<lparr>ifaces = [''can0'', ''vcan0'']\<rparr>\<rparr>,
             external_sink_set = True\<rparr>
   \<and> all_attach sim_probe [] [''can0''] \<and> sim_probe ''can1'' [''can0''] < 0
   \<and> makeNode sim_probe ([''can0''] @ ''can1'' # [''can2'']) True =
        Inl (Exception ''Failed to add iface can1'')"
proof -
  have a: "all_attach sim_probe [] [''can0'', ''vcan0'']"
    by (simp add: sim_probe_def)
  have b: "[''can0''] @ ''can1'' # [''can2''] = [''can0''] @ ''can1'' # [''can2''] \<and>
      all_attach sim_probe [] [''can0''] \<and> sim_probe ''can1'' [''can0''] < 0"
    by (simp add: sim_probe_def)
  from makeNode_all_or_nothing [of sim_probe "[''can0'', ''vcan0'']" True, THEN conjunct1, rule_format, OF a]
    makeNode_all_or_nothing [of sim_probe "[''can0''] @ ''can1'' # [''can2'']" True,
      THEN conjunct2, THEN conjunct1, rule_format, OF b] a b
  show ?thesis by simp
qed

text \<open>
  C6. For each of \<open>makeSubscriber\<close>, \<open>makePublisher\<close>, \<open>makeServiceServer\<close> and
  \<open>makeServiceClient\<close>: a negative status of the underlying start or init makes the factory
  throw the exception whose message holds the name of the data type and the status in
  brackets, and no handle is produced; a non-negative status makes it return the handle. The
  printed status determines the status.
\<close>

theorem endpoint_factories_enforce:
  "(res < 0 \<longrightarrow>
      makeSubscriber res type_name cb1 =
        Inl (Exception (''Subscriber start failure '' @ type_name @ '' ['' @ show_int res @ '']''))
    \<and> makePublisher res type_name tx =
        Inl (Exception (''Publisher init failure '' @ type_name @ '' ['' @ show_int res @ '']''))
    \<and> makeServiceServer res type_name cb2 =
        Inl (Exception (''ServiceServer start failure '' @ type_name @ '' ['' @ show_int res @ '']''))
    \<and> makeServiceClient res type_name cb3 =
        Inl (Exception (''ServiceClient init failure '' @ type_name @ '' ['' @ show_int res @ '']'')))
   \<and> (0 \<le> res \<longrightarrow>
      makeSubscriber res type_name cb1 =
        Inr \<lparr>subscriber_type = type_name, subscriber_callback = cb1\<rparr>
    \<and> makePublisher res type_name tx = Inr \<lparr>publisher_type = type_name, tx_timeout = tx\<rparr>
    \<and> makeServiceServer res type_name cb2 = Inr \<lparr>server_type = type_name, server_callback = cb2\<rparr>
    \<and> makeServiceClient res type_name cb3 = Inr \<lparr>client_type = type_name, client_callback = cb3\<rparr>)
   \<and> (\<forall>other. show_int other = show_int res \<longrightarrow> other = res)"
proof (intro conjI impI allI)
  fix other
  assume "show_int other = show_int res"
  then show "other = res" by (rule show_int_inj)
qed (simp_all add: makeSubscriber_def makePublisher_def makeServiceServer_def
    makeServiceClient_def enforce_negative enforce_nonnegative)

theorem endpoint_factories_enforce_witness:
  "(- 3 :: int) < 0
   \<and> makeSubscriber (- 3) ''uavcan.protocol.NodeStatus'' () =
        Inl (Exception ''Subscriber start failure uavcan.protocol.NodeStatus [-3]'')
   \<and> makeServiceClient (- 3) ''uavcan.protocol.NodeStatus'' () =
        Inl (Exception ''ServiceClient init failure uavcan.protocol.NodeStatus [-3]'')
   \<and> (0 :: int) \<le> 0
   \<and> makePublisher 0 ''uavcan.protocol.NodeStatus'' 1000 =
        Inr \<lparr>publisher_type = ''uavcan.protocol.NodeStatus'', tx_timeout = 1000\<rparr>
   \<and> makeServiceServer 0 ''uavcan.protocol.NodeStatus'' () =
        Inr \<lparr>server_type = ''uavcan.protocol.NodeStatus'', server_callback = ()\<rparr>"
proof -
  have neg: "(- 3 :: int) < 0" and ok: "(0 :: int) \<le> 0" by simp_all
  from endpoint_factories_enforce
      [of "- 3" "''uavcan.protocol.NodeStatus''" "()" 1000 "()" "()", THEN conjunct1, rule_format, OF neg]
    endpoint_factories_enforce
      [of 0 "''uavcan.protocol.NodeStatus''" "()" 1000 "()" "()", THEN conjunct2, THEN conjunct1,
        rule_format, OF ok]
    show_minus_3
  show ?thesis by simp
qed

text \<open>
  C7. The claim asks for failures of distinguishable kinds. As stated it fails: the failure of
  \<open>makeNode\<close> and the failure of an endpoint factory are objects of the same class.
\<close>

theorem error_kinds_counterexample:
  "makeNode sim_probe [''can1''] () = Inl (Exception ''Failed to add iface can1'')
   \<and> makeSubscriber (- 3) ''uavcan.protocol.NodeStatus'' () =
        Inl (Exception ''Subscriber start failure uavcan.protocol.NodeStatus [-3]'')
   \<and> same_class (Exception ''Failed to add iface can1'')
        (Exception ''Subscriber start failure uavcan.protocol.NodeStatus [-3]'')"
proof -
  have "makeNode sim_probe ([] @ ''can1'' # []) () = Inl (Exception (''Failed to add iface '' @ ''can1''))"
    by (rule makeNode_fail) (simp_all add: sim_probe_def)
  moreover have "makeSubscriber (- 3) ''uavcan.protocol.NodeStatus'' () =
        Inl (Exception ''Subscriber start failure uavcan.protocol.NodeStatus [-3]'')"
    by (simp add: makeSubscriber_def enforce_def show_minus_3)
  ultimately show ?thesis by simp
qed

text \<open>
  C7, amended. A failure of \<open>makeNode\<close> and a failure of an endpoint factory are objects of the
  one class \<^verbatim>\<open>Exception\<close>; they differ in the text of the message, never in kind.
\<close>

theorem failures_differ_in_message_only:
  "makeNode probe iface_names mode = Inl e1 \<and>
     (makeSubscriber res type_name cb1 = Inl e2 \<or> makePublisher res type_name tx = Inl e2 \<or>
      makeServiceServer res type_name cb2 = Inl e2 \<or> makeServiceClient res type_name cb3 = Inl e2)
   \<longrightarrow> same_class e1 e2 \<and> what e1 \<noteq> what e2"
proof (intro impI)
  assume h: "makeNode probe iface_names mode = Inl e1 \<and>
     (makeSubscriber res type_name cb1 = Inl e2 \<or> makePublisher res type_name tx = Inl e2 \<or>
      makeServiceServer res type_name cb2 = Inl e2 \<or> makeServiceClient res type_name cb3 = Inl e2)"
  then obtain ifn where e1: "e1 = Exception (''Failed to add iface '' @ ifn)"
    using makeNode_error [of probe iface_names mode e1] by blast
  from h obtain c rest where e2: "e2 = Exception (c # rest)" and c: "c = CHR ''S'' \<or> c = CHR ''P''"
    using factory_error [of res type_name cb1 e2 tx cb2 cb3] by blast
  from e1 e2 c show "same_class e1 e2 \<and> what e1 \<noteq> what e2" by auto
qed

theorem failures_differ_in_message_only_witness:
  "makeNode sim_probe [''can0'', ''can1''] () = Inl (Exception ''Failed to add iface can1'')
   \<and> makePublisher (- 3) ''uavcan.protocol.debug.LogMessage'' 1000 =
        Inl (Exception ''Publisher init failure uavcan.protocol.debug.LogMessage [-3]'')
   \<and> same_class (Exception ''Failed to add iface can1'')
        (Exception ''Publisher init failure uavcan.protocol.debug.LogMessage [-3]'')
   \<and> what (Exception ''Failed to add iface can1'') \<noteq>
        what (Exception ''Publisher init failure uavcan.protocol.debug.LogMessage [-3]'')"
proof -
  have a: "makeNode sim_probe ([''can0''] @ ''can1'' # []) () =
      Inl (Exception (''Failed to add iface '' @ ''can1''))"
    by (rule makeNode_fail) (simp_all add: sim_probe_def)
  have b: "makePublisher (- 3) ''uavcan.protocol.debug.LogMessage'' 1000 =
        Inl (Exception ''Publisher init failure uavcan.protocol.debug.LogMessage [-3]'')"
    by (simp add: makePublisher_def enforce_def show_minus_3)
  from a have a': "makeNode sim_probe [''can0'', ''can1''] () = Inl (Exception ''Failed to add iface can1'')"
    by simp
  from failures_differ_in_message_only
    [of sim_probe "[''can0'', ''can1'']" "()" "Exception ''Failed to add iface can1''"
      "- 3" "''uavcan.protocol.debug.LogMessage''" "()"
      "Exception ''Publisher init failure uavcan.protocol.debug.LogMessage [-3]''" 1000 "()" "()"]
    a' b
  show ?thesis by simp
qed

end
